theory Spec2Isabelle
  imports Main "HOL-Library.Word" "HOL-Library.Multiset"
begin

section \<open>Clause normalisation of the Datalog front end\<close>

text \<open>
  A shallow embedding of \<^verbatim>\<open>src/ast/analysis/ClauseNormalisation.cpp\<close>: the constructor
  of \<^verbatim>\<open>NormalisedClause\<close>, its helpers \<^verbatim>\<open>addClauseAtom\<close>, \<^verbatim>\<open>addClauseBodyLiteral\<close>
  and \<^verbatim>\<open>normaliseArgument\<close>, and \<^verbatim>\<open>ClauseNormalisationAnalysis::run\<close>.
  The members of the object under construction and the function-local static counter of
  \<^verbatim>\<open>normaliseArgument\<close> are threaded through every call as an explicit state.
\<close>

subsection \<open>Printing of numbers\<close>

text \<open>
  \<^verbatim>\<open>size_t\<close> is an unsigned 64-bit integer: \<^verbatim>\<open>++\<close> wraps around at \<open>2 ^ 64\<close>.
  The stream operator prints it in decimal.
\<close>

type_synonym size_t = "64 word"

definition digit_char :: "nat \<Rightarrow> char" where
  "digit_char d = ''0123456789'' ! d"

function show_nat :: "nat \<Rightarrow> string" where
  "show_nat n =
     (if n < 10 then [digit_char n] else show_nat (n div 10) @ [digit_char (n mod 10)])"
  by pat_completeness auto
termination
  by (relation "measure id") auto

declare show_nat.simps [simp del]

definition show_int :: "int \<Rightarrow> string" where
  "show_int i = (if i < 0 then CHR ''-'' # show_nat (nat (- i)) else show_nat (nat i))"

subsection \<open>The syntax tree\<close>

text \<open>
  Modelled from the spec: the class declarations of the syntax tree are not among the
  sources, so the node kinds follow the data model of the specification. A qualified name
  is its sequence of components; \<^verbatim>\<open>prepend\<close> puts a component in front. A string
  constant carries its symbol and prints in double quotes, a numeric constant carries its
  value and prints in decimal. Every literal kind other than
  atom, negation and binary constraint is represented by its printed form, which is all
  the normaliser reads of it (\<^verbatim>\<open>toString(*lit)\<close>).
\<close>

type_synonym AstQualifiedName = "string list"

datatype AggregateOp = AggrMin | AggrMax | AggrCount | AggrSum

datatype BinaryConstraintOp = BC_EQ | BC_NE | BC_LT | BC_LE | BC_GT | BC_GE
  | BC_MATCH | BC_CONTAINS | BC_NOT_MATCH | BC_NOT_CONTAINS

datatype AstArgument =
    AstStringConstant string
  | AstNumericConstant int
  | AstNilConstant
  | AstVariable string
  | AstUnnamedVariable
  | AstAggregator AggregateOp "AstArgument option" "AstLiteral list"
  | AstCounter
  | AstIntrinsicFunctor string "AstArgument list"
  | AstUserFunctor string "AstArgument list"
  | AstRecordInit "AstArgument list"
  | AstTypeCast AstArgument AstQualifiedName
  | AstSubroutineArg nat
and AstAtom = AstAtom (getQualifiedName: AstQualifiedName) (getArguments: "AstArgument list")
and AstLiteral =
    LitAtom AstAtom
  | AstNegation AstAtom
  | AstBinaryConstraint BinaryConstraintOp AstArgument AstArgument
  | AstOtherLiteral string

datatype AstClause = AstClause (getHead: AstAtom) (getBodyLiterals: "AstLiteral list")

text \<open>
  Modelled from the spec: the printers of the aggregate operator and of the comparison
  operator are not among the sources; the operators print as their surface symbols.
\<close>

fun aggregateOpName :: "AggregateOp \<Rightarrow> string" where
  "aggregateOpName AggrMin = ''min''"
| "aggregateOpName AggrMax = ''max''"
| "aggregateOpName AggrCount = ''count''"
| "aggregateOpName AggrSum = ''sum''"

fun toBinaryConstraintSymbol :: "BinaryConstraintOp \<Rightarrow> string" where
  "toBinaryConstraintSymbol BC_EQ = ''=''"
| "toBinaryConstraintSymbol BC_NE = ''!=''"
| "toBinaryConstraintSymbol BC_LT = ''<''"
| "toBinaryConstraintSymbol BC_LE = ''<=''"
| "toBinaryConstraintSymbol BC_GT = ''>''"
| "toBinaryConstraintSymbol BC_GE = ''>=''"
| "toBinaryConstraintSymbol BC_MATCH = ''match''"
| "toBinaryConstraintSymbol BC_CONTAINS = ''contains''"
| "toBinaryConstraintSymbol BC_NOT_MATCH = ''not_match''"
| "toBinaryConstraintSymbol BC_NOT_CONTAINS = ''not_contains''"

subsection \<open>The normalised clause and the state of the normaliser\<close>

record NormalisedClauseElement =
  name :: AstQualifiedName
  params :: "string list"

record NormalisedClause =
  fullyNormalised :: bool
  aggrScopeCount :: size_t
  variables :: "string set"
  constants :: "string set"
  clauseElements :: "NormalisedClauseElement list"

text \<open>
  The state a member function works on: the members of \<^verbatim>\<open>*this\<close> together with
  \<^verbatim>\<open>static size_t countUnnamed\<close>, which is local to \<^verbatim>\<open>normaliseArgument\<close> but lives
  for the whole process.
\<close>

record state = NormalisedClause +
  countUnnamed :: size_t

subsection \<open>The normaliser\<close>

text \<open>
  The five functions follow the source: \<open>normaliseArguments\<close> is the loop over the
  arguments of an atom (in \<^verbatim>\<open>addClauseAtom\<close> and in the constructor),
  \<open>addClauseBodyLiterals\<close> the loop over body literals (in the constructor and in the
  aggregator branch).
\<close>

fun normaliseArgument :: "AstArgument \<Rightarrow> state \<Rightarrow> string \<times> state"
and normaliseArguments :: "AstArgument list \<Rightarrow> state \<Rightarrow> string list \<times> state"
and addClauseAtom :: "string \<Rightarrow> string \<Rightarrow> AstAtom \<Rightarrow> state \<Rightarrow> state"
and addClauseBodyLiteral :: "string \<Rightarrow> AstLiteral \<Rightarrow> state \<Rightarrow> state"
and addClauseBodyLiterals :: "string \<Rightarrow> AstLiteral list \<Rightarrow> state \<Rightarrow> state"
where
  "normaliseArgument (AstStringConstant str) s =
     (let nm = ''@min:cst:str'' @ [CHR 0x22] @ str @ [CHR 0x22]
      in (nm, s\<lparr>constants := insert nm (constants s)\<rparr>))"
| "normaliseArgument (AstNumericConstant n) s =
     (let nm = ''@min:cst:num:'' @ show_int n
      in (nm, s\<lparr>constants := insert nm (constants s)\<rparr>))"
| "normaliseArgument AstNilConstant s =
     (''@min:cst:nil'', s\<lparr>constants := insert ''@min:cst:nil'' (constants s)\<rparr>)"
| "normaliseArgument (AstVariable nm) s =
     (nm, s\<lparr>variables := insert nm (variables s)\<rparr>)"
| "normaliseArgument AstUnnamedVariable s =
     (let nm = ''@min:unnamed:'' @ show_nat (unat (countUnnamed s))
      in (nm, s\<lparr>variables := insert nm (variables s),
                  countUnnamed := countUnnamed s + 1\<rparr>))"
| "normaliseArgument (AstAggregator oper target body) s =
     (let scopeID = ''@min:scope:'' @ show_nat (unat (aggrScopeCount s + 1));
          s1 = s\<lparr>aggrScopeCount := aggrScopeCount s + 1,
                 variables := insert scopeID (variables s)\<rparr>;
          aggrTypeSignature = ''@min:aggrtype'' @ '':'' @ aggregateOpName oper;
          (aggrTypeSignatureComponents, s2) =
             (case target of
                None \<Rightarrow> ([scopeID], s1)
              | Some t \<Rightarrow> (let (normalisedExpr, s') = normaliseArgument t s1
                          in ([scopeID, normalisedExpr], s')));
          s3 = s2\<lparr>clauseElements := clauseElements s2 @
                 [\<lparr>name = [aggrTypeSignature], params = aggrTypeSignatureComponents\<rparr>]\<rparr>
      in (scopeID, addClauseBodyLiterals scopeID body s3))"
| "normaliseArgument _ s = (''@min:unhandled:arg'', s\<lparr>fullyNormalised := False\<rparr>)"
| "normaliseArguments [] s = ([], s)"
| "normaliseArguments (arg # args) s =
     (let (v, s1) = normaliseArgument arg s;
          (vs, s2) = normaliseArguments args s1
      in (v # vs, s2))"
| "addClauseAtom qualifier scopeID (AstAtom qn args) s =
     (let (vs, s1) = normaliseArguments args s
      in s1\<lparr>clauseElements := clauseElements s1 @
            [\<lparr>name = qualifier # qn, params = scopeID # vs\<rparr>]\<rparr>)"
| "addClauseBodyLiteral scopeID (LitAtom atom) s = addClauseAtom ''@min:atom'' scopeID atom s"
| "addClauseBodyLiteral scopeID (AstNegation atom) s = addClauseAtom ''@min:neg'' scopeID atom s"
| "addClauseBodyLiteral scopeID (AstBinaryConstraint oper lhs rhs) s =
     (let (l, s1) = normaliseArgument lhs s;
          (r, s2) = normaliseArgument rhs s1
      in s2\<lparr>clauseElements := clauseElements s2 @
            [\<lparr>name = [''@min:operator'', toBinaryConstraintSymbol oper],
              params = [scopeID, l, r]\<rparr>]\<rparr>)"
| "addClauseBodyLiteral scopeID (AstOtherLiteral txt) s =
     s\<lparr>fullyNormalised := False,
       clauseElements := clauseElements s @
         [\<lparr>name = [''@min:unhandled:lit:'' @ scopeID, txt], params = []\<rparr>]\<rparr>"
| "addClauseBodyLiterals scopeID [] s = s"
| "addClauseBodyLiterals scopeID (lit # lits) s =
     addClauseBodyLiterals scopeID lits (addClauseBodyLiteral scopeID lit s)"

text \<open>
  Modelled from the spec: the member initialisers are in the header, which is not among
  the sources; a fresh object has \<open>fullyNormalised = true\<close>, scope counter 0 and empty
  collections. The static counter has whatever value \<open>cu\<close> earlier calls left.
\<close>

definition NormalisedClause_fresh :: "size_t \<Rightarrow> state" where
  "NormalisedClause_fresh cu =
     \<lparr>fullyNormalised = True, aggrScopeCount = 0, variables = {}, constants = {},
      clauseElements = [], countUnnamed = cu\<rparr>"

definition NormalisedClause_ctor :: "AstClause \<Rightarrow> size_t \<Rightarrow> state" where
  "NormalisedClause_ctor clause cu =
     (let (headVars, s1) =
            normaliseArguments (getArguments (getHead clause)) (NormalisedClause_fresh cu);
          s2 = s1\<lparr>clauseElements := clauseElements s1 @
                 [\<lparr>name = [''@min:head''], params = headVars\<rparr>]\<rparr>
      in addClauseBodyLiterals ''@min:scope:0'' (getBodyLiterals clause) s2)"

text \<open>The object the constructor leaves behind: the state without the static counter.\<close>

definition NormalisedClause_of :: "state \<Rightarrow> NormalisedClause" where
  "NormalisedClause_of s =
     \<lparr>fullyNormalised = fullyNormalised s, aggrScopeCount = aggrScopeCount s,
      variables = variables s, constants = constants s,
      clauseElements = clauseElements s\<rparr>"

subsection \<open>The analysis\<close>

text \<open>
  \<^verbatim>\<open>run\<close> walks the clauses of the program. A clause is identified by its address; the
  program is the list of its clauses, each with its address. The state of the analysis is
  its map \<^verbatim>\<open>normalisations\<close> together with the static counter of
  \<^verbatim>\<open>normaliseArgument\<close>, which every constructor call reads and leaves advanced. The
  \<^verbatim>\<open>assert\<close> is a branch of the model: a failed assertion aborts with its message.
\<close>

type_synonym clause_ptr = nat

record analysis =
  normalisations :: "clause_ptr \<rightharpoonup> NormalisedClause"
  static_countUnnamed :: size_t

fun run :: "(clause_ptr \<times> AstClause) list \<Rightarrow> analysis \<Rightarrow> string + analysis" where
  "run [] a = Inr a"
| "run ((p, clause) # rest) a =
     (if normalisations a p \<noteq> None then Inl ''clause already processed''
      else (let s = NormalisedClause_ctor clause (static_countUnnamed a)
            in run rest (a\<lparr>normalisations := (normalisations a)(p \<mapsto> NormalisedClause_of s),
                           static_countUnnamed := countUnnamed s\<rparr>)))"

section \<open>Auxiliary notions\<close>

subsection \<open>The arguments the normaliser visits\<close>

text \<open>
  The argument nodes on which \<open>normaliseArgument\<close> is called, in the order of the calls:
  the arguments of atoms and constraints, and below an aggregator its target and the
  arguments of its body literals. The arguments of functors, records and casts are never
  visited.
\<close>

fun visitedArgument :: "AstArgument \<Rightarrow> AstArgument list"
and visitedArguments :: "AstArgument list \<Rightarrow> AstArgument list"
and visitedAtom :: "AstAtom \<Rightarrow> AstArgument list"
and visitedLiteral :: "AstLiteral \<Rightarrow> AstArgument list"
and visitedLiterals :: "AstLiteral list \<Rightarrow> AstArgument list"
where
  "visitedArgument (AstAggregator oper target body) =
     AstAggregator oper target body #
       (case target of None \<Rightarrow> [] | Some t \<Rightarrow> visitedArgument t) @ visitedLiterals body"
| "visitedArgument arg = [arg]"
| "visitedArguments [] = []"
| "visitedArguments (arg # args) = visitedArgument arg @ visitedArguments args"
| "visitedAtom (AstAtom qn args) = visitedArguments args"
| "visitedLiteral (LitAtom atom) = visitedAtom atom"
| "visitedLiteral (AstNegation atom) = visitedAtom atom"
| "visitedLiteral (AstBinaryConstraint oper lhs rhs) = visitedArgument lhs @ visitedArgument rhs"
| "visitedLiteral (AstOtherLiteral txt) = []"
| "visitedLiterals [] = []"
| "visitedLiterals (lit # lits) = visitedLiteral lit @ visitedLiterals lits"

definition visitedClause :: "AstClause \<Rightarrow> AstArgument list" where
  "visitedClause clause =
     visitedArguments (getArguments (getHead clause)) @ visitedLiterals (getBodyLiterals clause)"

fun isAggregator :: "AstArgument \<Rightarrow> bool" where
  "isAggregator (AstAggregator oper target body) = True"
| "isAggregator arg = False"

text \<open>The argument kinds that have a branch of their own in \<open>normaliseArgument\<close>.\<close>

fun isHandledArgument :: "AstArgument \<Rightarrow> bool" where
  "isHandledArgument (AstStringConstant str) = True"
| "isHandledArgument (AstNumericConstant n) = True"
| "isHandledArgument AstNilConstant = True"
| "isHandledArgument (AstVariable nm) = True"
| "isHandledArgument AstUnnamedVariable = True"
| "isHandledArgument (AstAggregator oper target body) = True"
| "isHandledArgument arg = False"

definition countAggregators :: "AstArgument list \<Rightarrow> nat" where
  "countAggregators args = length (filter isAggregator args)"

definition countUnnamedVariables :: "AstArgument list \<Rightarrow> nat" where
  "countUnnamedVariables args = length (filter (\<lambda>arg. arg = AstUnnamedVariable) args)"

subsection \<open>The steps of the aggregator branch\<close>

text \<open>
  The aggregator branch of \<open>normaliseArgument\<close> in the words of the specification: the
  fresh scope token; the state after the counter is incremented and the token inserted
  into the variables; the tokens and state after the target, when there is one, is
  normalised; the state after the type-signature element is emitted.
\<close>

definition aggrScopeID :: "state \<Rightarrow> string" where
  "aggrScopeID s = ''@min:scope:'' @ show_nat (unat (aggrScopeCount s + 1))"

definition aggrOpen :: "state \<Rightarrow> state" where
  "aggrOpen s = s\<lparr>aggrScopeCount := aggrScopeCount s + 1,
                   variables := insert (aggrScopeID s) (variables s)\<rparr>"

definition aggrTarget :: "AstArgument option \<Rightarrow> state \<Rightarrow> string list \<times> state" where
  "aggrTarget target s =
     (case target of
        None \<Rightarrow> ([], aggrOpen s)
      | Some t \<Rightarrow> ([fst (normaliseArgument t (aggrOpen s))],
                   snd (normaliseArgument t (aggrOpen s))))"

definition aggrSignature :: "AggregateOp \<Rightarrow> AstArgument option \<Rightarrow> state \<Rightarrow> state" where
  "aggrSignature oper target s =
     (snd (aggrTarget target s))\<lparr>clauseElements :=
        clauseElements (snd (aggrTarget target s)) @
          [\<lparr>name = [''@min:aggrtype:'' @ aggregateOpName oper],
            params = aggrScopeID s # fst (aggrTarget target s)\<rparr>]\<rparr>"

subsection \<open>Adding the effect of one run to another state\<close>

text \<open>
  The state \<open>t\<close> with the elements, constants, variables and flag of \<open>d\<close> added to it; the
  counters are those of \<open>t\<close>.
\<close>

definition absorb :: "state \<Rightarrow> state \<Rightarrow> state" where
  "absorb t d =
     t\<lparr>fullyNormalised := fullyNormalised t \<and> fullyNormalised d,
       variables := variables t \<union> variables d,
       constants := constants t \<union> constants d,
       clauseElements := clauseElements t @ clauseElements d\<rparr>"

subsection \<open>Running the analysis twice\<close>

text \<open>
  Modelled from the spec: the declaration of the analysis class is not among the sources;
  a new analysis holds no normalisation. \<open>run_twice\<close> invokes \<open>run\<close> on a translation
  unit and then, unless the first invocation aborted, on the same translation unit again.
\<close>

definition ClauseNormalisationAnalysis_fresh :: "size_t \<Rightarrow> analysis" where
  "ClauseNormalisationAnalysis_fresh cu = \<lparr>normalisations = Map.empty, static_countUnnamed = cu\<rparr>"

definition run_twice :: "(clause_ptr \<times> AstClause) list \<Rightarrow> analysis \<Rightarrow> string + analysis" where
  "run_twice prog a = (case run prog a of Inl e \<Rightarrow> Inl e | Inr a' \<Rightarrow> run prog a')"

subsection \<open>The shape of the collected tokens\<close>

text \<open>
  A constant token is one of the three the constant branches build; a variable token is
  a name from a given set, an unnamed-variable token, or the token of an aggregator scope
  numbered from 1.
\<close>

definition constantToken :: "string \<Rightarrow> bool" where
  "constantToken c \<longleftrightarrow>
     (\<exists>str. c = ''@min:cst:str'' @ [CHR 0x22] @ str @ [CHR 0x22]) \<or>
     (\<exists>n. c = ''@min:cst:num:'' @ show_int n) \<or> c = ''@min:cst:nil''"

definition variableToken :: "string set \<Rightarrow> string \<Rightarrow> bool" where
  "variableToken V v \<longleftrightarrow>
     v \<in> V \<or> (\<exists>k. v = ''@min:unnamed:'' @ show_nat k) \<or>
     (\<exists>j\<ge>1. v = ''@min:scope:'' @ show_nat j)"

definition tokensWellFormed :: "string set \<Rightarrow> state \<Rightarrow> bool" where
  "tokensWellFormed V s \<longleftrightarrow>
     (\<forall>c\<in>constants s. constantToken c) \<and> (\<forall>v\<in>variables s. variableToken V v)"

abbreviation variableNames :: "AstArgument list \<Rightarrow> string set" where
  "variableNames args \<equiv> {nm. AstVariable nm \<in> set args}"

subsection \<open>The scopes of type signatures\<close>

text \<open>
  The token of the scope numbered \<open>j\<close>; the tokens of the \<open>n\<close> scopes after number \<open>c\<close>;
  the elements that are type signatures of aggregators; and the scope ids, the first
  parameter of each, of the type signatures in a list of elements.
\<close>

definition scopeToken :: "nat \<Rightarrow> string" where
  "scopeToken j = ''@min:scope:'' @ show_nat j"

definition scopeTokens :: "nat \<Rightarrow> nat \<Rightarrow> string list" where
  "scopeTokens c n = map scopeToken [c + 1 ..< c + 1 + n]"

definition isTypeSignature :: "NormalisedClauseElement \<Rightarrow> bool" where
  "isTypeSignature e \<longleftrightarrow>
     name e \<in> set (map (\<lambda>oper. [''@min:aggrtype:'' @ aggregateOpName oper])
                     [AggrMin, AggrMax, AggrCount, AggrSum])"

definition signatureScopes :: "NormalisedClauseElement list \<Rightarrow> string list" where
  "signatureScopes es = concat (map (\<lambda>e. take 1 (params e)) (filter isTypeSignature es))"

section \<open>Worked clauses\<close>

text \<open>The clause \<open>R(Y) :- Y = count : { S(X) }.\<close>\<close>

definition clause_count :: AstClause where
  "clause_count =
     AstClause (AstAtom [''R''] [AstVariable ''Y''])
       [AstBinaryConstraint BC_EQ (AstVariable ''Y'')
          (AstAggregator AggrCount None [LitAtom (AstAtom [''S''] [AstVariable ''X''])])]"

text \<open>The clause \<open>R(X) :- S(X).\<close>\<close>

definition clause_RS :: AstClause where
  "clause_RS =
     AstClause (AstAtom [''R''] [AstVariable ''X'']) [LitAtom (AstAtom [''S''] [AstVariable ''X''])]"

text \<open>The clause \<open>R(count : { S(X) }) :- T(X).\<close>, with an aggregator in its head.\<close>

definition clause_head_aggregator :: AstClause where
  "clause_head_aggregator =
     AstClause
       (AstAtom [''R''] [AstAggregator AggrCount None [LitAtom (AstAtom [''S''] [AstVariable ''X''])]])
       [LitAtom (AstAtom [''T''] [AstVariable ''X''])]"

text \<open>
  The clauses \<open>R(X) :- S(_), T(_).\<close> and \<open>R(X) :- T(_), S(_).\<close>, which differ in the
  order of their body literals only.
\<close>

definition clause_ST :: AstClause where
  "clause_ST =
     AstClause (AstAtom [''R''] [AstVariable ''X''])
       [LitAtom (AstAtom [''S''] [AstUnnamedVariable]),
        LitAtom (AstAtom [''T''] [AstUnnamedVariable])]"

definition clause_TS :: AstClause where
  "clause_TS =
     AstClause (AstAtom [''R''] [AstVariable ''X''])
       [LitAtom (AstAtom [''T''] [AstUnnamedVariable]),
        LitAtom (AstAtom [''S''] [AstUnnamedVariable])]"

text \<open>
  The clauses \<open>R(X) :- S(X, 1), !T(X), X != 2.\<close> and \<open>R(X) :- X != 2, S(X, 1), !T(X).\<close>
\<close>

definition clause_plain :: AstClause where
  "clause_plain =
     AstClause (AstAtom [''R''] [AstVariable ''X''])
       [LitAtom (AstAtom [''S''] [AstVariable ''X'', AstNumericConstant 1]),
        AstNegation (AstAtom [''T''] [AstVariable ''X'']),
        AstBinaryConstraint BC_NE (AstVariable ''X'') (AstNumericConstant 2)]"

definition clause_plain_reordered :: AstClause where
  "clause_plain_reordered =
     AstClause (AstAtom [''R''] [AstVariable ''X''])
       [AstBinaryConstraint BC_NE (AstVariable ''X'') (AstNumericConstant 2),
        LitAtom (AstAtom [''S''] [AstVariable ''X'', AstNumericConstant 1]),
        AstNegation (AstAtom [''T''] [AstVariable ''X''])]"

text \<open>The clause \<open>R(_) :- S(_).\<close>\<close>

definition clause_unnamed :: AstClause where
  "clause_unnamed =
     AstClause (AstAtom [''R''] [AstUnnamedVariable]) [LitAtom (AstAtom [''S''] [AstUnnamedVariable])]"

text \<open>
  The clauses \<open>R(_) :- S(X), T(X).\<close> and \<open>R(_) :- T(X), S(X).\<close>, with an unnamed
  variable in the head only.
\<close>

definition clause_head_unnamed :: AstClause where
  "clause_head_unnamed =
     AstClause (AstAtom [''R''] [AstUnnamedVariable])
       [LitAtom (AstAtom [''S''] [AstVariable ''X'']),
        LitAtom (AstAtom [''T''] [AstVariable ''X''])]"

definition clause_head_unnamed_reordered :: AstClause where
  "clause_head_unnamed_reordered =
     AstClause (AstAtom [''R''] [AstUnnamedVariable])
       [LitAtom (AstAtom [''T''] [AstVariable ''X'']),
        LitAtom (AstAtom [''S''] [AstVariable ''X''])]"

section \<open>Properties\<close>

subsection \<open>The equations of the normaliser, without local bindings\<close>

lemma normaliseArgument_aggregator:
  "normaliseArgument (AstAggregator oper target body) s =
     (aggrScopeID s, addClauseBodyLiterals (aggrScopeID s) body (aggrSignature oper target s))"
  by (cases target)
     (simp_all add: aggrSignature_def aggrTarget_def aggrOpen_def aggrScopeID_def Let_def
        case_prod_unfold)

lemma normaliseArguments_Cons:
  "normaliseArguments (arg # args) s =
     (fst (normaliseArgument arg s) # fst (normaliseArguments args (snd (normaliseArgument arg s))),
      snd (normaliseArguments args (snd (normaliseArgument arg s))))"
  by (simp add: Let_def case_prod_unfold)

lemma addClauseAtom_eq:
  "addClauseAtom qualifier scopeID (AstAtom qn args) s =
     (snd (normaliseArguments args s))\<lparr>clauseElements :=
        clauseElements (snd (normaliseArguments args s)) @
          [\<lparr>name = qualifier # qn, params = scopeID # fst (normaliseArguments args s)\<rparr>]\<rparr>"
  by (simp add: Let_def case_prod_unfold)

lemma addClauseBodyLiteral_constraint:
  "addClauseBodyLiteral scopeID (AstBinaryConstraint oper lhs rhs) s =
     (snd (normaliseArgument rhs (snd (normaliseArgument lhs s))))\<lparr>clauseElements :=
        clauseElements (snd (normaliseArgument rhs (snd (normaliseArgument lhs s)))) @
          [\<lparr>name = [''@min:operator'', toBinaryConstraintSymbol oper],
            params = [scopeID, fst (normaliseArgument lhs s),
                      fst (normaliseArgument rhs (snd (normaliseArgument lhs s)))]\<rparr>]\<rparr>"
  by (simp add: Let_def case_prod_unfold)

text \<open>
  Computation induction over the five functions, with the hypotheses of the recursive
  calls stated on the intermediate states.
\<close>

lemma normalise_induct [case_names leaf aggregator nil_args cons_args atom lit_atom negation
    constraint other nil_lits cons_lits]:
  fixes P1 :: "AstArgument \<Rightarrow> state \<Rightarrow> bool"
    and P2 :: "AstArgument list \<Rightarrow> state \<Rightarrow> bool"
    and P3 :: "string \<Rightarrow> string \<Rightarrow> AstAtom \<Rightarrow> state \<Rightarrow> bool"
    and P4 :: "string \<Rightarrow> AstLiteral \<Rightarrow> state \<Rightarrow> bool"
    and P5 :: "string \<Rightarrow> AstLiteral list \<Rightarrow> state \<Rightarrow> bool"
  assumes leaf: "\<And>arg s. \<not> isAggregator arg \<Longrightarrow> P1 arg s"
    and aggregator: "\<And>oper target body s.
          (\<And>t. target = Some t \<Longrightarrow> P1 t (aggrOpen s)) \<Longrightarrow>
          P5 (aggrScopeID s) body (aggrSignature oper target s) \<Longrightarrow>
          P1 (AstAggregator oper target body) s"
    and nil_args: "\<And>s. P2 [] s"
    and cons_args: "\<And>arg args s.
          P1 arg s \<Longrightarrow> P2 args (snd (normaliseArgument arg s)) \<Longrightarrow> P2 (arg # args) s"
    and atom: "\<And>qualifier scopeID qn args s.
          P2 args s \<Longrightarrow> P3 qualifier scopeID (AstAtom qn args) s"
    and lit_atom: "\<And>scopeID atom s.
          P3 ''@min:atom'' scopeID atom s \<Longrightarrow> P4 scopeID (LitAtom atom) s"
    and negation: "\<And>scopeID atom s.
          P3 ''@min:neg'' scopeID atom s \<Longrightarrow> P4 scopeID (AstNegation atom) s"
    and constraint: "\<And>scopeID oper lhs rhs s.
          P1 lhs s \<Longrightarrow> P1 rhs (snd (normaliseArgument lhs s)) \<Longrightarrow>
          P4 scopeID (AstBinaryConstraint oper lhs rhs) s"
    and other: "\<And>scopeID txt s. P4 scopeID (AstOtherLiteral txt) s"
    and nil_lits: "\<And>scopeID s. P5 scopeID [] s"
    and cons_lits: "\<And>scopeID lit lits s.
          P4 scopeID lit s \<Longrightarrow> P5 scopeID lits (addClauseBodyLiteral scopeID lit s) \<Longrightarrow>
          P5 scopeID (lit # lits) s"
  shows "P1 a s1" and "P2 as s2" and "P3 q sc at s3" and "P4 sc1 l s4" and "P5 sc2 ls s5"
proof (induction a s1 and as s2 and q sc at s3 and sc1 l s4 and sc2 ls s5
    rule: normaliseArgument_normaliseArguments_addClauseAtom_addClauseBodyLiteral_addClauseBodyLiterals.induct)
  case (6 oper target body s)
  show ?case
  proof (rule aggregator)
    fix t
    assume "target = Some t"
    from 6(1)[OF refl refl refl this] show "P1 t (aggrOpen s)"
      by (simp only: aggrOpen_def aggrScopeID_def)
  next
    let ?sid = "''@min:scope:'' @ show_nat (unat (aggrScopeCount s + 1))"
    let ?s1 = "s\<lparr>aggrScopeCount := aggrScopeCount s + 1, variables := insert ?sid (variables s)\<rparr>"
    let ?xc = "case target of None \<Rightarrow> ([?sid], ?s1)
               | Some t \<Rightarrow> (let (normalisedExpr, s') = normaliseArgument t ?s1
                            in ([?sid, normalisedExpr], s'))"
    have "aggrSignature oper target s =
            (snd ?xc)\<lparr>clauseElements := clauseElements (snd ?xc) @
               [\<lparr>name = [''@min:aggrtype'' @ '':'' @ aggregateOpName oper], params = fst ?xc\<rparr>]\<rparr>"
      by (cases target)
         (simp_all add: aggrSignature_def aggrTarget_def aggrOpen_def aggrScopeID_def Let_def
            case_prod_unfold)
    with 6(2)[OF refl refl refl refl prod.collapse refl]
    show "P5 (aggrScopeID s) body (aggrSignature oper target s)"
      by (simp only: aggrScopeID_def)
  qed
next
  case (9 arg args s)
  from 9(1) 9(2)[OF refl prod.collapse] show ?case by (rule cons_args)
next
  case (13 scopeID oper lhs rhs s)
  from 13(1) 13(2)[OF refl prod.collapse] show ?case by (rule constraint)
qed (auto intro: leaf nil_args atom lit_atom negation other nil_lits cons_lits)

declare normaliseArgument.simps(6) [simp del]
declare normaliseArguments.simps(2) [simp del]
declare addClauseAtom.simps [simp del]
declare addClauseBodyLiteral.simps(3) [simp del]
declare normaliseArgument_aggregator [simp]
declare normaliseArguments_Cons [simp]
declare addClauseAtom_eq [simp]
declare addClauseBodyLiteral_constraint [simp]

lemmas aggr_defs = aggrSignature_def aggrTarget_def aggrOpen_def

lemmas eval_defs = NormalisedClause_ctor_def NormalisedClause_fresh_def NormalisedClause_of_def
  aggr_defs aggrScopeID_def digit_char_def show_nat.simps Let_def

subsection \<open>The clause with a count aggregate\<close>

text \<open>
  C3 (counterexample). In the element of the binary constraint of
  \<open>R(Y) :- Y = count : { S(X) }.\<close> the parameter at the position of the variable \<open>Y\<close>
  (the left-hand side, right after the scope) is the raw name \<open>Y\<close>, not
  \<open>@min:scope:1\<close>.
\<close>

theorem C3_Y_token_counterexample:
  "params (last (clauseElements (NormalisedClause_ctor clause_count 0))) ! 1 = ''Y'' \<and>
   params (last (clauseElements (NormalisedClause_ctor clause_count 0))) ! 1 \<noteq> ''@min:scope:1'' \<and>
   fst (normaliseArgument (AstVariable ''Y'') (NormalisedClause_fresh 0)) \<noteq> ''@min:scope:1''"
  by (simp add: clause_count_def eval_defs)

text \<open>
  C3 (amended). Whatever the value of the static counter, normalising
  \<open>R(Y) :- Y = count : { S(X) }.\<close> gives the head element with parameter \<open>Y\<close>, then the
  element \<open>@min:aggrtype:count\<close> with parameters \<open>[@min:scope:1]\<close>, then the atom element
  of \<open>S\<close> with scope \<open>@min:scope:1\<close>, then the element of the binary constraint with
  parameters \<open>[@min:scope:0, Y, @min:scope:1]\<close>: the variable \<open>Y\<close> keeps its raw name and
  \<open>@min:scope:1\<close> is the token of the aggregator. The variables are \<open>Y\<close>, \<open>X\<close> and
  \<open>@min:scope:1\<close>, there are no constants and the clause is fully normalised.
\<close>

theorem C3_count_aggregate:
  "NormalisedClause_of (NormalisedClause_ctor clause_count cu) =
     \<lparr>fullyNormalised = True, aggrScopeCount = 1,
      variables = {''Y'', ''@min:scope:1'', ''X''}, constants = {},
      clauseElements =
        [\<lparr>name = [''@min:head''], params = [''Y'']\<rparr>,
         \<lparr>name = [''@min:aggrtype:count''], params = [''@min:scope:1'']\<rparr>,
         \<lparr>name = [''@min:atom'', ''S''], params = [''@min:scope:1'', ''X'']\<rparr>,
         \<lparr>name = [''@min:operator'', ''=''],
           params = [''@min:scope:0'', ''Y'', ''@min:scope:1'']\<rparr>]\<rparr>"
  by (simp add: clause_count_def eval_defs insert_commute)

subsection \<open>General facts about the normaliser\<close>

lemma elements_grow_all:
  shows "\<exists>new. clauseElements (snd (normaliseArgument a s1)) = clauseElements s1 @ new"
  and "\<exists>new. clauseElements (snd (normaliseArguments as s2)) = clauseElements s2 @ new"
  and "\<exists>new. clauseElements (addClauseAtom q sc at s3) = clauseElements s3 @ new \<and> 1 \<le> length new"
  and "\<exists>new. clauseElements (addClauseBodyLiteral sc1 l s4) = clauseElements s4 @ new \<and> 1 \<le> length new"
  and "\<exists>new. clauseElements (addClauseBodyLiterals sc2 ls s5) = clauseElements s5 @ new \<and> length ls \<le> length new"
proof (induction a s1 and as s2 and q sc at s3 and sc1 l s4 and sc2 ls s5 rule: normalise_induct)
  case (leaf arg s)
  then show ?case by (cases arg) (simp_all add: Let_def)
next
  case (aggregator oper target body s)
  then show ?case by (cases target) (auto simp: aggr_defs)
qed auto

lemma normaliseArguments_append:
  "normaliseArguments (xs @ ys) s =
     (fst (normaliseArguments xs s) @ fst (normaliseArguments ys (snd (normaliseArguments xs s))),
      snd (normaliseArguments ys (snd (normaliseArguments xs s))))"
  by (induction xs arbitrary: s) simp_all

lemma addClauseBodyLiterals_append:
  "addClauseBodyLiterals sc (xs @ ys) s = addClauseBodyLiterals sc ys (addClauseBodyLiterals sc xs s)"
  by (induction xs arbitrary: s) simp_all

lemma normaliseArguments_length: "length (fst (normaliseArguments as s)) = length as"
  by (induction as arbitrary: s) simp_all

lemma normaliseArguments_nth:
  "i < length as \<Longrightarrow> fst (normaliseArguments as s) ! i =
     fst (normaliseArgument (as ! i) (snd (normaliseArguments (take i as) s)))"
proof (induction as arbitrary: s i)
  case Nil then show ?case by simp
next
  case (Cons a as)
  then show ?case by (cases i) simp_all
qed

lemma normaliseArgument_leaf_frame:
  "\<not> isAggregator a \<Longrightarrow>
     clauseElements (snd (normaliseArgument a s)) = clauseElements s \<and>
     aggrScopeCount (snd (normaliseArgument a s)) = aggrScopeCount s"
  by (cases a) (simp_all add: Let_def)

lemma normaliseArguments_leaf_frame:
  "\<forall>a\<in>set as. \<not> isAggregator a \<Longrightarrow>
     clauseElements (snd (normaliseArguments as s)) = clauseElements s \<and>
     aggrScopeCount (snd (normaliseArguments as s)) = aggrScopeCount s"
  by (induction as arbitrary: s) (simp_all add: normaliseArgument_leaf_frame)


subsection \<open>The flag \<open>fullyNormalised\<close>\<close>



subsection \<open>Unhandled literals and arguments\<close>

text \<open>
  C7. A literal of a kind the normaliser has no branch for sets \<open>fullyNormalised\<close> to
  false and appends one element whose name is \<open>@min:unhandled:lit:\<close> followed by the
  scope id, prepended to the text of the literal, with no parameters. An argument of a
  kind without a branch sets the flag to false and yields the token
  \<open>@min:unhandled:arg\<close>. Neither stops the normaliser: the literals after an unhandled
  literal and the arguments after an unhandled argument are processed, every argument of
  a list yields a token and every literal of a list at least one element.
\<close>

theorem C7_unhandled:
  "addClauseBodyLiteral scopeID (AstOtherLiteral txt) s =
     s\<lparr>fullyNormalised := False,
       clauseElements := clauseElements s @
         [\<lparr>name = [''@min:unhandled:lit:'' @ scopeID, txt], params = []\<rparr>]\<rparr> \<and>
   (\<not> isHandledArgument a \<longrightarrow>
      normaliseArgument a s = (''@min:unhandled:arg'', s\<lparr>fullyNormalised := False\<rparr>)) \<and>
   addClauseBodyLiterals scopeID (before @ AstOtherLiteral txt # rest) s =
     addClauseBodyLiterals scopeID rest
       (addClauseBodyLiteral scopeID (AstOtherLiteral txt) (addClauseBodyLiterals scopeID before s)) \<and>
   (\<not> isHandledArgument a \<longrightarrow>
      normaliseArguments (args @ a # args') s =
        (fst (normaliseArguments args s) @ ''@min:unhandled:arg'' #
           fst (normaliseArguments args' ((snd (normaliseArguments args s))\<lparr>fullyNormalised := False\<rparr>)),
         snd (normaliseArguments args' ((snd (normaliseArguments args s))\<lparr>fullyNormalised := False\<rparr>)))) \<and>
   length (fst (normaliseArguments as s)) = length as \<and>
   length (clauseElements s) + length ls \<le>
     length (clauseElements (addClauseBodyLiterals scopeID ls s))"
proof -
  have 1: "\<not> isHandledArgument a \<Longrightarrow>
      normaliseArgument a t = (''@min:unhandled:arg'', t\<lparr>fullyNormalised := False\<rparr>)" for t
    by (cases a) simp_all
  obtain new where "clauseElements (addClauseBodyLiterals scopeID ls s) = clauseElements s @ new"
    and "length ls \<le> length new"
    using elements_grow_all(5) by blast
  then have 2: "length (clauseElements s) + length ls \<le>
     length (clauseElements (addClauseBodyLiterals scopeID ls s))" by simp
  show ?thesis
    using 1 2
    by (simp add: addClauseBodyLiterals_append normaliseArguments_append normaliseArguments_length)
qed

text \<open>An unhandled counter argument, alone and between two variables.\<close>

theorem C7_unhandled_witness:
  "\<not> isHandledArgument AstCounter \<and>
   normaliseArgument AstCounter (NormalisedClause_fresh 0) =
     (''@min:unhandled:arg'', (NormalisedClause_fresh 0)\<lparr>fullyNormalised := False\<rparr>) \<and>
   fst (normaliseArguments ([AstVariable ''X''] @ AstCounter # [AstVariable ''Y''])
          (NormalisedClause_fresh 0)) = [''X'', ''@min:unhandled:arg'', ''Y'']"
proof -
  have h: "\<not> isHandledArgument AstCounter" by simp
  show ?thesis
    using h C7_unhandled [of "''@min:scope:0''" "''true''" "NormalisedClause_fresh 0" AstCounter
        "[]" "[]" "[AstVariable ''X'']" "[AstVariable ''Y'']" "[]" "[]"]
    by (simp add: NormalisedClause_fresh_def)
qed


subsection \<open>The elements of body literals\<close>

text \<open>
  C5. Under a scope id, an atom \<open>p(a1,...,an)\<close> yields, after its arguments are
  normalised, one element named \<open>@min:atom\<close> prepended to \<open>p\<close> with the scope id and the
  tokens of the arguments as parameters; a negated atom the same with \<open>@min:neg\<close>; a
  binary constraint one element named \<open>@min:operator\<close> prepended to the symbol of the
  operator, with the scope id and the tokens of the two sides. The tokens are those
  \<open>normaliseArgument\<close> returns for the arguments, in the order of the arguments. When no
  argument is an aggregator this element is the only one the literal appends.
\<close>

theorem C5_body_literal_elements:
  "addClauseBodyLiteral scopeID (LitAtom (AstAtom p args)) s =
     (snd (normaliseArguments args s))\<lparr>clauseElements :=
        clauseElements (snd (normaliseArguments args s)) @
          [\<lparr>name = ''@min:atom'' # p, params = scopeID # fst (normaliseArguments args s)\<rparr>]\<rparr> \<and>
   addClauseBodyLiteral scopeID (AstNegation (AstAtom p args)) s =
     (snd (normaliseArguments args s))\<lparr>clauseElements :=
        clauseElements (snd (normaliseArguments args s)) @
          [\<lparr>name = ''@min:neg'' # p, params = scopeID # fst (normaliseArguments args s)\<rparr>]\<rparr> \<and>
   addClauseBodyLiteral scopeID (AstBinaryConstraint oper lhs rhs) s =
     (snd (normaliseArgument rhs (snd (normaliseArgument lhs s))))\<lparr>clauseElements :=
        clauseElements (snd (normaliseArgument rhs (snd (normaliseArgument lhs s)))) @
          [\<lparr>name = [''@min:operator'', toBinaryConstraintSymbol oper],
            params = [scopeID, fst (normaliseArgument lhs s),
                      fst (normaliseArgument rhs (snd (normaliseArgument lhs s)))]\<rparr>]\<rparr> \<and>
   length (fst (normaliseArguments args s)) = length args \<and>
   (\<forall>i<length args.
      fst (normaliseArguments args s) ! i =
        fst (normaliseArgument (args ! i) (snd (normaliseArguments (take i args) s)))) \<and>
   ((\<forall>a\<in>set args. \<not> isAggregator a) \<longrightarrow>
      clauseElements (addClauseBodyLiteral scopeID (LitAtom (AstAtom p args)) s) =
        clauseElements s @
          [\<lparr>name = ''@min:atom'' # p, params = scopeID # fst (normaliseArguments args s)\<rparr>] \<and>
      clauseElements (addClauseBodyLiteral scopeID (AstNegation (AstAtom p args)) s) =
        clauseElements s @
          [\<lparr>name = ''@min:neg'' # p, params = scopeID # fst (normaliseArguments args s)\<rparr>]) \<and>
   (\<not> isAggregator lhs \<and> \<not> isAggregator rhs \<longrightarrow>
      clauseElements (addClauseBodyLiteral scopeID (AstBinaryConstraint oper lhs rhs) s) =
        clauseElements s @
          [\<lparr>name = [''@min:operator'', toBinaryConstraintSymbol oper],
            params = [scopeID, fst (normaliseArgument lhs s),
                      fst (normaliseArgument rhs (snd (normaliseArgument lhs s)))]\<rparr>])"
  by (simp add: normaliseArguments_length normaliseArguments_nth normaliseArguments_leaf_frame
      normaliseArgument_leaf_frame)

text \<open>The atom \<open>S(X, 1)\<close>, its negation and the constraint \<open>X = 2\<close> under scope 0.\<close>

theorem C5_body_literal_elements_witness:
  "clauseElements (addClauseBodyLiteral ''@min:scope:0''
       (LitAtom (AstAtom [''S''] [AstVariable ''X'', AstNumericConstant 1]))
       (NormalisedClause_fresh 0)) =
     [\<lparr>name = [''@min:atom'', ''S''], params = [''@min:scope:0'', ''X'', ''@min:cst:num:1'']\<rparr>] \<and>
   clauseElements (addClauseBodyLiteral ''@min:scope:0''
       (AstNegation (AstAtom [''S''] [AstVariable ''X'', AstNumericConstant 1]))
       (NormalisedClause_fresh 0)) =
     [\<lparr>name = [''@min:neg'', ''S''], params = [''@min:scope:0'', ''X'', ''@min:cst:num:1'']\<rparr>] \<and>
   clauseElements (addClauseBodyLiteral ''@min:scope:0''
       (AstBinaryConstraint BC_EQ (AstVariable ''X'') (AstNumericConstant 2))
       (NormalisedClause_fresh 0)) =
     [\<lparr>name = [''@min:operator'', ''=''], params = [''@min:scope:0'', ''X'', ''@min:cst:num:2'']\<rparr>]"
proof -
  have h: "\<forall>a\<in>set [AstVariable ''X'', AstNumericConstant 1]. \<not> isAggregator a"
    and h': "\<not> isAggregator (AstVariable ''X'') \<and> \<not> isAggregator (AstNumericConstant 2)"
    by simp_all
  show ?thesis
    using h h' C5_body_literal_elements [of "''@min:scope:0''" "[''S'']"
        "[AstVariable ''X'', AstNumericConstant 1]" "NormalisedClause_fresh 0" BC_EQ
        "AstVariable ''X''" "AstNumericConstant 2"]
    by (simp add: eval_defs show_int_def)
qed

subsection \<open>The head element\<close>

text \<open>
  C4 (counterexample). For \<open>R(count : { S(X) }) :- T(X).\<close> the first element is the type
  signature of the aggregator in the head; the element \<open>@min:head\<close> is the third.
\<close>

theorem C4_head_not_first_counterexample:
  "name (clauseElements (NormalisedClause_ctor clause_head_aggregator 0) ! 0) =
     [''@min:aggrtype:count''] \<and>
   name (clauseElements (NormalisedClause_ctor clause_head_aggregator 0) ! 0) \<noteq> [''@min:head''] \<and>
   clauseElements (NormalisedClause_ctor clause_head_aggregator 0) ! 2 =
     \<lparr>name = [''@min:head''], params = [''@min:scope:1'']\<rparr>"
  by (simp add: clause_head_aggregator_def eval_defs)

text \<open>
  C4 (amended). The constructor first normalises the arguments of the head, in order, and
  then appends the element named \<open>@min:head\<close> whose parameters are the tokens of these
  arguments in head order. The element follows the elements that aggregators among the
  head's arguments emit; when no argument of the head is an aggregator it is the first
  element. The clause \<open>R(X) :- S(X).\<close> yields exactly the elements \<open>{@min:head, [X]}\<close> and
  \<open>{@min:atom S, [@min:scope:0, X]}\<close>, no constants, the variables \<open>{X}\<close> and
  \<open>fullyNormalised = true\<close>.
\<close>

theorem C4_head_element:
  "(let args = getArguments (getHead clause);
        r = normaliseArguments args (NormalisedClause_fresh cu);
        es = clauseElements (NormalisedClause_ctor clause cu);
        k = length (clauseElements (snd r))
    in take k es = clauseElements (snd r) \<and> k < length es \<and>
       es ! k = \<lparr>name = [''@min:head''], params = fst r\<rparr> \<and>
       length (fst r) = length args \<and>
       (\<forall>i<length args.
          fst r ! i = fst (normaliseArgument (args ! i)
                        (snd (normaliseArguments (take i args) (NormalisedClause_fresh cu))))) \<and>
       ((\<forall>a\<in>set args. \<not> isAggregator a) \<longrightarrow>
          es ! 0 = \<lparr>name = [''@min:head''], params = fst r\<rparr>)) \<and>
   NormalisedClause_of (NormalisedClause_ctor clause_RS cu) =
     \<lparr>fullyNormalised = True, aggrScopeCount = 0, variables = {''X''}, constants = {},
      clauseElements =
        [\<lparr>name = [''@min:head''], params = [''X'']\<rparr>,
         \<lparr>name = [''@min:atom'', ''S''], params = [''@min:scope:0'', ''X'']\<rparr>]\<rparr>"
proof -
  define args where "args = getArguments (getHead clause)"
  define r where "r = normaliseArguments args (NormalisedClause_fresh cu)"
  define s2 where "s2 = (snd r)\<lparr>clauseElements := clauseElements (snd r) @
                 [\<lparr>name = [''@min:head''], params = fst r\<rparr>]\<rparr>"
  define es where "es = clauseElements (NormalisedClause_ctor clause cu)"
  have ctor: "NormalisedClause_ctor clause cu =
      addClauseBodyLiterals ''@min:scope:0'' (getBodyLiterals clause) s2"
    by (simp add: NormalisedClause_ctor_def s2_def r_def args_def Let_def case_prod_unfold)
  obtain new where "es = clauseElements s2 @ new"
    unfolding es_def ctor using elements_grow_all(5) by blast
  then have es: "es = clauseElements (snd r) @ \<lparr>name = [''@min:head''], params = fst r\<rparr> # new"
    by (simp add: s2_def)
  have 1: "take (length (clauseElements (snd r))) es = clauseElements (snd r)"
    and 2: "length (clauseElements (snd r)) < length es"
    and 3: "es ! length (clauseElements (snd r)) = \<lparr>name = [''@min:head''], params = fst r\<rparr>"
    by (simp_all add: es)
  have 4: "(\<forall>a\<in>set args. \<not> isAggregator a) \<longrightarrow>
          es ! 0 = \<lparr>name = [''@min:head''], params = fst r\<rparr>"
    by (simp add: es r_def normaliseArguments_leaf_frame NormalisedClause_fresh_def)
  have 5: "NormalisedClause_of (NormalisedClause_ctor clause_RS cu) =
     \<lparr>fullyNormalised = True, aggrScopeCount = 0, variables = {''X''}, constants = {},
      clauseElements =
        [\<lparr>name = [''@min:head''], params = [''X'']\<rparr>,
         \<lparr>name = [''@min:atom'', ''S''], params = [''@min:scope:0'', ''X'']\<rparr>]\<rparr>"
    by (simp add: clause_RS_def eval_defs)
  show ?thesis
    unfolding Let_def
    using 1 2 3 4 5
    by (simp add: es_def r_def args_def normaliseArguments_length normaliseArguments_nth)
qed

text \<open>The clause \<open>R(X) :- S(X).\<close>, whose head has no aggregator.\<close>

theorem C4_head_element_witness:
  "clauseElements (NormalisedClause_ctor clause_RS 0) ! 0 =
     \<lparr>name = [''@min:head''], params = [''X'']\<rparr>"
proof -
  have h: "\<forall>a\<in>set (getArguments (getHead clause_RS)). \<not> isAggregator a"
    by (simp add: clause_RS_def)
  have t: "fst (normaliseArguments (getArguments (getHead clause_RS)) (NormalisedClause_fresh 0)) =
      [''X'']"
    by (simp add: clause_RS_def)
  show ?thesis
    using h t C4_head_element [of clause_RS 0]
    unfolding Let_def by simp
qed


subsection \<open>Reordering the body\<close>

lemma absorb_assoc: "absorb (absorb t d) e = absorb t (absorb d e)"
  by (simp add: absorb_def Un_assoc)

lemma absorb_push:
  "(absorb t d)\<lparr>clauseElements := clauseElements (absorb t d) @ es\<rparr> =
     absorb t (d\<lparr>clauseElements := clauseElements d @ es\<rparr>)"
  by (simp add: absorb_def)

lemma visitedArgument_self: "a \<in> set (visitedArgument a)"
  by (cases a) simp_all

lemma visitedArguments_self: "set as \<subseteq> set (visitedArguments as)"
  by (induction as) (auto simp: visitedArgument_self)

lemma set_visitedLiterals:
  "set (visitedLiterals ls) = (\<Union>l\<in>set ls. set (visitedLiteral l))"
  by (induction ls) simp_all

text \<open>
  An argument that is neither an aggregator nor an unnamed variable has the same token
  and the same effect in every state.
\<close>

lemma normaliseArgument_plain:
  assumes "\<not> isAggregator a" and "a \<noteq> AstUnnamedVariable"
  shows "normaliseArgument a t =
           (fst (normaliseArgument a (NormalisedClause_fresh 0)),
            absorb t (snd (normaliseArgument a (NormalisedClause_fresh 0))))"
  using assms by (cases a) (simp_all add: absorb_def NormalisedClause_fresh_def Let_def)

lemma normaliseArguments_plain:
  assumes "\<forall>a\<in>set as. \<not> isAggregator a \<and> a \<noteq> AstUnnamedVariable"
  shows "normaliseArguments as t =
           (fst (normaliseArguments as (NormalisedClause_fresh 0)),
            absorb t (snd (normaliseArguments as (NormalisedClause_fresh 0))))"
  using assms
proof (induction as arbitrary: t)
  case Nil
  show ?case by (simp add: absorb_def NormalisedClause_fresh_def)
next
  case (Cons a as)
  let ?E = "NormalisedClause_fresh 0"
  have a: "normaliseArgument a t = (fst (normaliseArgument a ?E), absorb t (snd (normaliseArgument a ?E)))"
    by (rule normaliseArgument_plain) (use Cons.prems in simp_all)
  have ih: "normaliseArguments as u =
      (fst (normaliseArguments as ?E), absorb u (snd (normaliseArguments as ?E)))" for u
    by (rule Cons.IH) (use Cons.prems in simp)
  have 1: "normaliseArguments as (absorb t (snd (normaliseArgument a ?E))) =
      (fst (normaliseArguments as ?E),
       absorb (absorb t (snd (normaliseArgument a ?E))) (snd (normaliseArguments as ?E)))"
    by (rule ih)
  have 2: "normaliseArguments as (snd (normaliseArgument a ?E)) =
      (fst (normaliseArguments as ?E),
       absorb (snd (normaliseArgument a ?E)) (snd (normaliseArguments as ?E)))"
    by (rule ih)
  show ?case
    by (simp add: a 1 2 absorb_assoc)
qed

lemma addClauseBodyLiteral_plain:
  assumes "\<forall>a\<in>set (visitedLiteral l). \<not> isAggregator a \<and> a \<noteq> AstUnnamedVariable"
  shows "addClauseBodyLiteral sc l t = absorb t (addClauseBodyLiteral sc l (NormalisedClause_fresh 0))"
proof (cases l)
  case (LitAtom atom)
  obtain qn args where atom: "atom = AstAtom qn args" by (cases atom)
  have "\<forall>a\<in>set args. \<not> isAggregator a \<and> a \<noteq> AstUnnamedVariable"
    using assms visitedArguments_self [of args] by (auto simp: LitAtom atom)
  from normaliseArguments_plain [OF this, of t] show ?thesis
    by (simp add: LitAtom atom absorb_push)
next
  case (AstNegation atom)
  obtain qn args where atom: "atom = AstAtom qn args" by (cases atom)
  have "\<forall>a\<in>set args. \<not> isAggregator a \<and> a \<noteq> AstUnnamedVariable"
    using assms visitedArguments_self [of args] by (auto simp: AstNegation atom)
  from normaliseArguments_plain [OF this, of t] show ?thesis
    by (simp add: AstNegation atom absorb_push)
next
  case (AstBinaryConstraint oper lhs rhs)
  have "\<forall>a\<in>set [lhs, rhs]. \<not> isAggregator a \<and> a \<noteq> AstUnnamedVariable"
    using assms visitedArgument_self [of lhs] visitedArgument_self [of rhs]
    by (auto simp: AstBinaryConstraint)
  from normaliseArguments_plain [OF this, of t] show ?thesis
    by (simp add: AstBinaryConstraint absorb_push)
next
  case (AstOtherLiteral tx)
  show ?thesis by (simp add: AstOtherLiteral absorb_def NormalisedClause_fresh_def)
qed

lemma addClauseBodyLiterals_plain:
  assumes "\<forall>a\<in>set (visitedLiterals ls). \<not> isAggregator a \<and> a \<noteq> AstUnnamedVariable"
  shows "addClauseBodyLiterals sc ls t =
     t\<lparr>fullyNormalised :=
          fullyNormalised t \<and>
          (\<forall>l\<in>set ls. fullyNormalised (addClauseBodyLiteral sc l (NormalisedClause_fresh 0))),
       variables :=
          variables t \<union> (\<Union>l\<in>set ls. variables (addClauseBodyLiteral sc l (NormalisedClause_fresh 0))),
       constants :=
          constants t \<union> (\<Union>l\<in>set ls. constants (addClauseBodyLiteral sc l (NormalisedClause_fresh 0))),
       clauseElements :=
          clauseElements t @
          concat (map (\<lambda>l. clauseElements (addClauseBodyLiteral sc l (NormalisedClause_fresh 0))) ls)\<rparr>"
  using assms
proof (induction ls arbitrary: t)
  case Nil
  show ?case by simp
next
  case (Cons l ls)
  have l: "addClauseBodyLiteral sc l t = absorb t (addClauseBodyLiteral sc l (NormalisedClause_fresh 0))"
    by (rule addClauseBodyLiteral_plain) (use Cons.prems in simp)
  have "\<forall>a\<in>set (visitedLiterals ls). \<not> isAggregator a \<and> a \<noteq> AstUnnamedVariable"
    using Cons.prems by simp
  from Cons.IH [OF this] show ?case
    unfolding addClauseBodyLiterals.simps l
    by (auto simp: absorb_def Un_assoc)
qed

lemma mset_concat_map_cong:
  "mset xs = mset ys \<Longrightarrow> mset (concat (map f xs)) = mset (concat (map f ys))"
proof -
  have "mset (concat (map f zs)) = (\<Sum>z\<in>#mset zs. mset (f z))" for zs
    by (induction zs) simp_all
  then show "mset xs = mset ys \<Longrightarrow> ?thesis" by simp
qed

text \<open>
  When both clauses are normalised from the same value of the static counter, it is
  enough that the body holds no unnamed variable.
\<close>

lemma body_reordering_same_counter:
  assumes perm: "mset body' = mset body"
    and no_aggr: "\<forall>a\<in>set (visitedClause (AstClause h body)). \<not> isAggregator a"
    and no_unnamed: "\<forall>a\<in>set (visitedLiterals body). a \<noteq> AstUnnamedVariable"
  shows "clauseElements (NormalisedClause_ctor (AstClause h body') cu) ! 0 =
           clauseElements (NormalisedClause_ctor (AstClause h body) cu) ! 0 \<and>
         name (clauseElements (NormalisedClause_ctor (AstClause h body) cu) ! 0) = [''@min:head''] \<and>
         mset (tl (clauseElements (NormalisedClause_ctor (AstClause h body') cu))) =
           mset (tl (clauseElements (NormalisedClause_ctor (AstClause h body) cu))) \<and>
         mset (clauseElements (NormalisedClause_ctor (AstClause h body') cu)) =
           mset (clauseElements (NormalisedClause_ctor (AstClause h body) cu)) \<and>
         constants (NormalisedClause_ctor (AstClause h body') cu) =
           constants (NormalisedClause_ctor (AstClause h body) cu) \<and>
         variables (NormalisedClause_ctor (AstClause h body') cu) =
           variables (NormalisedClause_ctor (AstClause h body) cu) \<and>
         fullyNormalised (NormalisedClause_ctor (AstClause h body') cu) =
           fullyNormalised (NormalisedClause_ctor (AstClause h body) cu)"
proof -
  let ?sc = "''@min:scope:0''"
  define r where "r = normaliseArguments (getArguments h) (NormalisedClause_fresh cu)"
  define s2 where "s2 = (snd r)\<lparr>clauseElements := clauseElements (snd r) @
                 [\<lparr>name = [''@min:head''], params = fst r\<rparr>]\<rparr>"
  have ctor: "NormalisedClause_ctor (AstClause h b) cu = addClauseBodyLiterals ?sc b s2" for b
    by (simp add: NormalisedClause_ctor_def s2_def r_def Let_def case_prod_unfold)
  have "\<forall>a\<in>set (getArguments h). \<not> isAggregator a"
    using no_aggr visitedArguments_self [of "getArguments h"] by (auto simp: visitedClause_def)
  then have head: "clauseElements s2 = [\<lparr>name = [''@min:head''], params = fst r\<rparr>]"
    by (simp add: s2_def r_def normaliseArguments_leaf_frame NormalisedClause_fresh_def)
  have plain: "\<forall>a\<in>set (visitedLiterals body). \<not> isAggregator a \<and> a \<noteq> AstUnnamedVariable"
    using no_aggr no_unnamed by (simp add: visitedClause_def)
  have sets: "set body' = set body"
    using perm by (rule mset_eq_setD)
  then have plain': "\<forall>a\<in>set (visitedLiterals body'). \<not> isAggregator a \<and> a \<noteq> AstUnnamedVariable"
    using plain by (simp add: set_visitedLiterals)
  let ?f = "\<lambda>l. clauseElements (addClauseBodyLiteral ?sc l (NormalisedClause_fresh 0))"
  have els: "mset (concat (map ?f body')) = mset (concat (map ?f body))"
    using perm by (rule mset_concat_map_cong)
  show ?thesis
    unfolding ctor addClauseBodyLiterals_plain [OF plain] addClauseBodyLiterals_plain [OF plain']
    by (simp add: head sets els)
qed

subsection \<open>The counter of unnamed variables\<close>

lemma countUnnamedVariables_append [simp]:
  "countUnnamedVariables (xs @ ys) = countUnnamedVariables xs + countUnnamedVariables ys"
  by (simp add: countUnnamedVariables_def)

lemma countUnnamedVariables_Nil [simp]: "countUnnamedVariables [] = 0"
  by (simp add: countUnnamedVariables_def)

lemma countUnnamedVariables_Cons [simp]:
  "countUnnamedVariables (a # xs) =
     (if a = AstUnnamedVariable then 1 else 0) + countUnnamedVariables xs"
  by (simp add: countUnnamedVariables_def)

text \<open>Every visited unnamed variable advances the static counter by one.\<close>

lemma countUnnamed_advance:
  shows "countUnnamed (snd (normaliseArgument a s1)) =
           countUnnamed s1 + of_nat (countUnnamedVariables (visitedArgument a))"
  and "countUnnamed (snd (normaliseArguments as s2)) =
           countUnnamed s2 + of_nat (countUnnamedVariables (visitedArguments as))"
  and "countUnnamed (addClauseAtom q sc at s3) =
           countUnnamed s3 + of_nat (countUnnamedVariables (visitedAtom at))"
  and "countUnnamed (addClauseBodyLiteral sc1 l s4) =
           countUnnamed s4 + of_nat (countUnnamedVariables (visitedLiteral l))"
  and "countUnnamed (addClauseBodyLiterals sc2 ls s5) =
           countUnnamed s5 + of_nat (countUnnamedVariables (visitedLiterals ls))"
proof (induction a s1 and as s2 and q sc at s3 and sc1 l s4 and sc2 ls s5 rule: normalise_induct)
  case (leaf arg s)
  then show ?case by (cases arg) (simp_all add: Let_def)
next
  case (aggregator oper target body s)
  then show ?case by (cases target) (simp_all add: aggr_defs)
qed simp_all

text \<open>
  Where no unnamed variable is visited, the static counter has no influence and is left
  as it was.
\<close>

lemma aggrScopeID_countUnnamed [simp]: "aggrScopeID (s\<lparr>countUnnamed := k\<rparr>) = aggrScopeID s"
  by (simp add: aggrScopeID_def)

lemma countUnnamed_irrelevant:
  shows "(\<forall>x\<in>set (visitedArgument a). x \<noteq> AstUnnamedVariable) \<longrightarrow>
           (\<forall>k. normaliseArgument a (s1\<lparr>countUnnamed := k\<rparr>) =
                  (fst (normaliseArgument a s1), (snd (normaliseArgument a s1))\<lparr>countUnnamed := k\<rparr>))"
  and "(\<forall>x\<in>set (visitedArguments as). x \<noteq> AstUnnamedVariable) \<longrightarrow>
           (\<forall>k. normaliseArguments as (s2\<lparr>countUnnamed := k\<rparr>) =
                  (fst (normaliseArguments as s2), (snd (normaliseArguments as s2))\<lparr>countUnnamed := k\<rparr>))"
  and "(\<forall>x\<in>set (visitedAtom at). x \<noteq> AstUnnamedVariable) \<longrightarrow>
           (\<forall>k. addClauseAtom q sc at (s3\<lparr>countUnnamed := k\<rparr>) =
                  (addClauseAtom q sc at s3)\<lparr>countUnnamed := k\<rparr>)"
  and "(\<forall>x\<in>set (visitedLiteral l). x \<noteq> AstUnnamedVariable) \<longrightarrow>
           (\<forall>k. addClauseBodyLiteral sc1 l (s4\<lparr>countUnnamed := k\<rparr>) =
                  (addClauseBodyLiteral sc1 l s4)\<lparr>countUnnamed := k\<rparr>)"
  and "(\<forall>x\<in>set (visitedLiterals ls). x \<noteq> AstUnnamedVariable) \<longrightarrow>
           (\<forall>k. addClauseBodyLiterals sc2 ls (s5\<lparr>countUnnamed := k\<rparr>) =
                  (addClauseBodyLiterals sc2 ls s5)\<lparr>countUnnamed := k\<rparr>)"
proof (induction a s1 and as s2 and q sc at s3 and sc1 l s4 and sc2 ls s5 rule: normalise_induct)
  case (leaf arg s)
  then show ?case by (cases arg) (simp_all add: Let_def)
next
  case (aggregator oper target body s)
  show ?case
  proof (intro impI allI)
    fix k
    assume h: "\<forall>x\<in>set (visitedArgument (AstAggregator oper target body)). x \<noteq> AstUnnamedVariable"
    have op: "aggrOpen (s\<lparr>countUnnamed := k\<rparr>) = (aggrOpen s)\<lparr>countUnnamed := k\<rparr>"
      by (simp add: aggrOpen_def)
    have tg: "aggrTarget target (s\<lparr>countUnnamed := k\<rparr>) =
        (fst (aggrTarget target s), (snd (aggrTarget target s))\<lparr>countUnnamed := k\<rparr>)"
    proof (cases target)
      case None
      then show ?thesis by (simp add: aggrTarget_def op)
    next
      case (Some t)
      with h have "\<forall>x\<in>set (visitedArgument t). x \<noteq> AstUnnamedVariable" by simp
      with aggregator(1) [OF Some] have "normaliseArgument t ((aggrOpen s)\<lparr>countUnnamed := k\<rparr>) =
          (fst (normaliseArgument t (aggrOpen s)),
           (snd (normaliseArgument t (aggrOpen s)))\<lparr>countUnnamed := k\<rparr>)"
        by blast
      then show ?thesis by (simp add: aggrTarget_def op Some)
    qed
    have sg: "aggrSignature oper target (s\<lparr>countUnnamed := k\<rparr>) =
        (aggrSignature oper target s)\<lparr>countUnnamed := k\<rparr>"
      by (simp add: aggrSignature_def tg)
    from h have "\<forall>x\<in>set (visitedLiterals body). x \<noteq> AstUnnamedVariable" by simp
    with aggregator(2) have "addClauseBodyLiterals (aggrScopeID s) body
          ((aggrSignature oper target s)\<lparr>countUnnamed := k\<rparr>) =
        (addClauseBodyLiterals (aggrScopeID s) body (aggrSignature oper target s))\<lparr>countUnnamed := k\<rparr>"
      by blast
    then show "normaliseArgument (AstAggregator oper target body) (s\<lparr>countUnnamed := k\<rparr>) =
        (fst (normaliseArgument (AstAggregator oper target body) s),
         (snd (normaliseArgument (AstAggregator oper target body) s))\<lparr>countUnnamed := k\<rparr>)"
      by (simp add: sg)
  qed
qed simp_all

text \<open>
  The constructor on a clause in which no unnamed variable is visited: the static counter
  only passes through.
\<close>

lemma NormalisedClause_ctor_countUnnamed:
  assumes h: "\<forall>a\<in>set (visitedClause clause). a \<noteq> AstUnnamedVariable"
  shows "NormalisedClause_ctor clause k = (NormalisedClause_ctor clause 0)\<lparr>countUnnamed := k\<rparr>"
proof -
  let ?args = "getArguments (getHead clause)"
  let ?body = "getBodyLiterals clause"
  have fresh: "NormalisedClause_fresh k = (NormalisedClause_fresh 0)\<lparr>countUnnamed := k\<rparr>"
    by (simp add: NormalisedClause_fresh_def)
  have a: "\<forall>x\<in>set (visitedArguments ?args). x \<noteq> AstUnnamedVariable"
    and b: "\<forall>x\<in>set (visitedLiterals ?body). x \<noteq> AstUnnamedVariable"
    using h by (simp_all add: visitedClause_def)
  note A = countUnnamed_irrelevant(2) [THEN mp, OF a, THEN spec]
  note B = countUnnamed_irrelevant(5) [THEN mp, OF b, THEN spec]
  define r0 where "r0 = normaliseArguments ?args (NormalisedClause_fresh 0)"
  define hd0 where "hd0 = \<lparr>name = [''@min:head''], params = fst r0\<rparr>"
  define t0 where "t0 = (snd r0)\<lparr>clauseElements := clauseElements (snd r0) @ [hd0]\<rparr>"
  have rk: "normaliseArguments ?args (NormalisedClause_fresh k) =
      (fst r0, (snd r0)\<lparr>countUnnamed := k\<rparr>)"
    unfolding fresh r0_def by (rule A)
  have tk: "((snd r0)\<lparr>countUnnamed := k\<rparr>)\<lparr>clauseElements :=
        clauseElements ((snd r0)\<lparr>countUnnamed := k\<rparr>) @ [hd0]\<rparr> = t0\<lparr>countUnnamed := k\<rparr>"
    by (simp add: t0_def)
  have "NormalisedClause_ctor clause k = addClauseBodyLiterals ''@min:scope:0'' ?body (t0\<lparr>countUnnamed := k\<rparr>)"
    unfolding NormalisedClause_ctor_def Let_def case_prod_unfold rk fst_conv snd_conv
    by (simp only: tk hd0_def [symmetric])
  moreover have "NormalisedClause_ctor clause 0 = addClauseBodyLiterals ''@min:scope:0'' ?body t0"
    unfolding NormalisedClause_ctor_def Let_def case_prod_unfold
    by (simp only: t0_def hd0_def r0_def)
  ultimately show ?thesis
    by (simp only: B)
qed

text \<open>
  C1 (counterexample). Normalising \<open>R(_) :- S(_).\<close> when the static counter is 0 gives
  the tokens \<open>@min:unnamed:0\<close> and \<open>@min:unnamed:1\<close> and leaves the counter at 2;
  normalising the same clause again, from the counter the first run left, gives
  \<open>@min:unnamed:2\<close> and \<open>@min:unnamed:3\<close>, and other elements.
\<close>

theorem C1_static_counter_counterexample:
  "variables (NormalisedClause_ctor clause_unnamed 0) = {''@min:unnamed:0'', ''@min:unnamed:1''} \<and>
   countUnnamed (NormalisedClause_ctor clause_unnamed 0) = 2 \<and>
   variables (NormalisedClause_ctor clause_unnamed
                (countUnnamed (NormalisedClause_ctor clause_unnamed 0))) =
     {''@min:unnamed:2'', ''@min:unnamed:3''} \<and>
   clauseElements (NormalisedClause_ctor clause_unnamed
                (countUnnamed (NormalisedClause_ctor clause_unnamed 0))) \<noteq>
     clauseElements (NormalisedClause_ctor clause_unnamed 0)"
proof -
  have 1: "countUnnamed (NormalisedClause_ctor clause_unnamed 0) = 2"
    by (simp add: clause_unnamed_def eval_defs)
  show ?thesis
    unfolding 1 by (simp add: clause_unnamed_def eval_defs insert_commute)
qed

text \<open>
  C1 (amended). The counter of unnamed variables is static: it is shared by all clauses
  normalised in the process. An unnamed variable takes the token \<open>@min:unnamed:\<close>
  followed by the current value of the counter, and normalising a clause advances the
  counter by the number of unnamed variables visited. For a clause in which no unnamed
  variable is visited the result does not depend on the counter: any two runs of the
  normaliser on it produce the same elements, constants and variables.
\<close>

theorem C1_static_unnamed_counter:
  "fst (normaliseArgument AstUnnamedVariable s) =
     ''@min:unnamed:'' @ show_nat (unat (countUnnamed s)) \<and>
   countUnnamed (NormalisedClause_ctor clause cu) =
     cu + of_nat (countUnnamedVariables (visitedClause clause)) \<and>
   ((\<forall>a\<in>set (visitedClause clause). a \<noteq> AstUnnamedVariable) \<longrightarrow>
      countUnnamed (NormalisedClause_ctor clause cu) = cu \<and>
      NormalisedClause_of (NormalisedClause_ctor clause cu') =
        NormalisedClause_of (NormalisedClause_ctor clause cu))"
proof -
  let ?args = "getArguments (getHead clause)"
  let ?body = "getBodyLiterals clause"
  have 1: "countUnnamed (NormalisedClause_ctor clause cu) =
     cu + of_nat (countUnnamedVariables (visitedClause clause))"
    by (simp add: NormalisedClause_ctor_def Let_def case_prod_unfold countUnnamed_advance
        visitedClause_def NormalisedClause_fresh_def)
  have 2: "NormalisedClause_ctor clause k = (NormalisedClause_ctor clause 0)\<lparr>countUnnamed := k\<rparr>"
    if h: "\<forall>a\<in>set (visitedClause clause). a \<noteq> AstUnnamedVariable" for k
    using h by (rule NormalisedClause_ctor_countUnnamed)
  have 3: "NormalisedClause_of (NormalisedClause_ctor clause cu') =
        NormalisedClause_of (NormalisedClause_ctor clause cu)"
    if h: "\<forall>a\<in>set (visitedClause clause). a \<noteq> AstUnnamedVariable"
    by (subst 2 [OF h, of cu'], subst 2 [OF h, of cu]) (simp add: NormalisedClause_of_def)
  have 4: "countUnnamed (NormalisedClause_ctor clause cu) = cu"
    if h: "\<forall>a\<in>set (visitedClause clause). a \<noteq> AstUnnamedVariable"
    by (subst 2 [OF h, of cu]) simp
  show ?thesis
    using 1 3 4 by (simp add: Let_def)
qed

text \<open>
  \<open>R(X) :- S(X).\<close> has no unnamed variable: it normalises to the same object when the
  counter is 0 and when it is 5.
\<close>

theorem C1_static_unnamed_counter_witness:
  "countUnnamed (NormalisedClause_ctor clause_RS 5) = 5 \<and>
   NormalisedClause_of (NormalisedClause_ctor clause_RS 0) =
     NormalisedClause_of (NormalisedClause_ctor clause_RS 5)"
proof -
  have h: "\<forall>a\<in>set (visitedClause clause_RS). a \<noteq> AstUnnamedVariable"
    by (simp add: clause_RS_def visitedClause_def)
  from C1_static_unnamed_counter [of _ clause_RS 5 0] h show ?thesis
    by blast
qed


subsection \<open>Reordering the body of a clause\<close>

text \<open>
  C6 (counterexample). \<open>R(X) :- S(_), T(_).\<close> and \<open>R(X) :- T(_), S(_).\<close> have the same
  head and the same body literals in another order, and hold no aggregator; the element
  of \<open>S\<close> carries \<open>@min:unnamed:0\<close> in the first and \<open>@min:unnamed:1\<close> in the second, so
  the multisets of elements differ. An unnamed variable in the head is enough when the
  two clauses are normalised one after the other: the head of \<open>R(_) :- S(X), T(X).\<close>
  takes \<open>@min:unnamed:0\<close> and the head of \<open>R(_) :- T(X), S(X).\<close>, normalised next, takes
  \<open>@min:unnamed:1\<close>.
\<close>

theorem C6_unnamed_reordering_counterexample:
  "getHead clause_TS = getHead clause_ST \<and>
   mset (getBodyLiterals clause_TS) = mset (getBodyLiterals clause_ST) \<and>
   filter isAggregator (visitedClause clause_ST) = [] \<and>
   mset (clauseElements (NormalisedClause_ctor clause_TS 0)) \<noteq>
     mset (clauseElements (NormalisedClause_ctor clause_ST 0)) \<and>
   getHead clause_head_unnamed_reordered = getHead clause_head_unnamed \<and>
   mset (getBodyLiterals clause_head_unnamed_reordered) =
     mset (getBodyLiterals clause_head_unnamed) \<and>
   filter isAggregator (visitedClause clause_head_unnamed) = [] \<and>
   mset (clauseElements (NormalisedClause_ctor clause_head_unnamed_reordered
           (countUnnamed (NormalisedClause_ctor clause_head_unnamed 0)))) \<noteq>
     mset (clauseElements (NormalisedClause_ctor clause_head_unnamed 0))"
proof -
  let ?e = "\<lparr>name = [''@min:atom'', ''S''], params = [''@min:scope:0'', ''@min:unnamed:0'']\<rparr>"
  have "?e \<in> set (clauseElements (NormalisedClause_ctor clause_ST 0))"
    by (simp add: clause_ST_def eval_defs)
  moreover have "?e \<notin> set (clauseElements (NormalisedClause_ctor clause_TS 0))"
    by (simp add: clause_TS_def eval_defs)
  ultimately have 1: "mset (clauseElements (NormalisedClause_ctor clause_TS 0)) \<noteq>
     mset (clauseElements (NormalisedClause_ctor clause_ST 0))"
    using mset_eq_setD by blast
  let ?h = "\<lparr>name = [''@min:head''], params = [''@min:unnamed:0'']\<rparr>"
  have c: "countUnnamed (NormalisedClause_ctor clause_head_unnamed 0) = 1"
    by (simp add: clause_head_unnamed_def eval_defs)
  have "?h \<in> set (clauseElements (NormalisedClause_ctor clause_head_unnamed 0))"
    by (simp add: clause_head_unnamed_def eval_defs)
  moreover have "?h \<notin> set (clauseElements (NormalisedClause_ctor clause_head_unnamed_reordered 1))"
    by (simp add: clause_head_unnamed_reordered_def eval_defs)
  ultimately have 2: "mset (clauseElements (NormalisedClause_ctor clause_head_unnamed_reordered
           (countUnnamed (NormalisedClause_ctor clause_head_unnamed 0)))) \<noteq>
     mset (clauseElements (NormalisedClause_ctor clause_head_unnamed 0))"
    unfolding c using mset_eq_setD by blast
  have 3: "getHead clause_TS = getHead clause_ST"
    "mset (getBodyLiterals clause_TS) = mset (getBodyLiterals clause_ST)"
    "filter isAggregator (visitedClause clause_ST) = []"
    by (simp_all add: clause_ST_def clause_TS_def visitedClause_def)
  have 4: "getHead clause_head_unnamed_reordered = getHead clause_head_unnamed"
    "mset (getBodyLiterals clause_head_unnamed_reordered) =
       mset (getBodyLiterals clause_head_unnamed)"
    "filter isAggregator (visitedClause clause_head_unnamed) = []"
    by (simp_all add: clause_head_unnamed_def clause_head_unnamed_reordered_def visitedClause_def)
  from 1 2 3 4 show ?thesis by (intro conjI)
qed

text \<open>
  C6 (amended). For a clause that holds no aggregator and no unnamed variable, permuting
  the body literals leaves the head element at position 0, permutes the elements after
  it (they are equal as multisets), and leaves the constants, the variables and the flag
  unchanged, whatever the values of the static counter when the clause and its
  permutation are normalised.
\<close>

theorem C6_body_reordering:
  assumes perm: "mset body' = mset body"
    and no_aggr: "\<forall>a\<in>set (visitedClause (AstClause h body)). \<not> isAggregator a"
    and no_unnamed: "\<forall>a\<in>set (visitedClause (AstClause h body)). a \<noteq> AstUnnamedVariable"
  shows "clauseElements (NormalisedClause_ctor (AstClause h body') cu') ! 0 =
           clauseElements (NormalisedClause_ctor (AstClause h body) cu) ! 0 \<and>
         name (clauseElements (NormalisedClause_ctor (AstClause h body) cu) ! 0) = [''@min:head''] \<and>
         mset (tl (clauseElements (NormalisedClause_ctor (AstClause h body') cu'))) =
           mset (tl (clauseElements (NormalisedClause_ctor (AstClause h body) cu))) \<and>
         mset (clauseElements (NormalisedClause_ctor (AstClause h body') cu')) =
           mset (clauseElements (NormalisedClause_ctor (AstClause h body) cu)) \<and>
         constants (NormalisedClause_ctor (AstClause h body') cu') =
           constants (NormalisedClause_ctor (AstClause h body) cu) \<and>
         variables (NormalisedClause_ctor (AstClause h body') cu') =
           variables (NormalisedClause_ctor (AstClause h body) cu) \<and>
         fullyNormalised (NormalisedClause_ctor (AstClause h body') cu') =
           fullyNormalised (NormalisedClause_ctor (AstClause h body) cu)"
proof -
  have body: "\<forall>a\<in>set (visitedLiterals body). a \<noteq> AstUnnamedVariable"
    using no_unnamed by (simp add: visitedClause_def)
  note same = body_reordering_same_counter [OF perm no_aggr body, of cu]
  have "set body' = set body"
    using perm by (rule mset_eq_setD)
  then have "set (visitedLiterals body') = set (visitedLiterals body)"
    by (simp add: set_visitedLiterals)
  with no_unnamed
  have u': "\<forall>a\<in>set (visitedClause (AstClause h body')). a \<noteq> AstUnnamedVariable"
    by (simp add: visitedClause_def)
  have "NormalisedClause_ctor (AstClause h body') cu' =
      (NormalisedClause_ctor (AstClause h body') 0)\<lparr>countUnnamed := cu'\<rparr>"
    using u' by (rule NormalisedClause_ctor_countUnnamed)
  moreover have "NormalisedClause_ctor (AstClause h body') cu =
      (NormalisedClause_ctor (AstClause h body') 0)\<lparr>countUnnamed := cu\<rparr>"
    using u' by (rule NormalisedClause_ctor_countUnnamed)
  ultimately have k: "NormalisedClause_ctor (AstClause h body') cu' =
      (NormalisedClause_ctor (AstClause h body') cu)\<lparr>countUnnamed := cu'\<rparr>"
    by simp
  show ?thesis
    unfolding k using same by simp
qed

text \<open>
  \<open>R(X) :- S(X, 1), !T(X), X != 2.\<close> normalised when the counter is 0, and the same
  clause with the constraint moved to the front normalised when the counter is 7.
\<close>

theorem C6_body_reordering_witness:
  "mset (clauseElements (NormalisedClause_ctor clause_plain_reordered 7)) =
     mset (clauseElements (NormalisedClause_ctor clause_plain 0)) \<and>
   clauseElements (NormalisedClause_ctor clause_plain_reordered 7) ! 0 =
     clauseElements (NormalisedClause_ctor clause_plain 0) ! 0 \<and>
   variables (NormalisedClause_ctor clause_plain_reordered 7) =
     variables (NormalisedClause_ctor clause_plain 0)"
proof -
  let ?h = "AstAtom [''R''] [AstVariable ''X'']"
  let ?b = "[LitAtom (AstAtom [''S''] [AstVariable ''X'', AstNumericConstant 1]),
        AstNegation (AstAtom [''T''] [AstVariable ''X'']),
        AstBinaryConstraint BC_NE (AstVariable ''X'') (AstNumericConstant 2)]"
  let ?b' = "[AstBinaryConstraint BC_NE (AstVariable ''X'') (AstNumericConstant 2),
        LitAtom (AstAtom [''S''] [AstVariable ''X'', AstNumericConstant 1]),
        AstNegation (AstAtom [''T''] [AstVariable ''X''])]"
  have 1: "mset ?b' = mset ?b" by simp
  have 2: "\<forall>a\<in>set (visitedClause (AstClause ?h ?b)). \<not> isAggregator a"
    by (simp add: visitedClause_def)
  have 3: "\<forall>a\<in>set (visitedClause (AstClause ?h ?b)). a \<noteq> AstUnnamedVariable"
    by (simp add: visitedClause_def)
  from C6_body_reordering [OF 1 2 3, of 7 0] show ?thesis
    by (simp only: clause_plain_def clause_plain_reordered_def)
qed

subsection \<open>The analysis\<close>

lemma run_append:
  "run (xs @ ys) a = (case run xs a of Inl e \<Rightarrow> Inl e | Inr a' \<Rightarrow> run ys a')"
  by (induction xs arbitrary: a) (auto simp: Let_def)

lemma run_fails_with: "run prog a = Inl e \<Longrightarrow> e = ''clause already processed''"
  by (induction prog arbitrary: a) (auto simp: Let_def split: if_splits)

lemma run_succeeds:
  assumes "distinct (map fst prog)" and "\<forall>p\<in>fst ` set prog. normalisations a p = None"
  shows "\<exists>a'. run prog a = Inr a'"
  using assms
proof (induction prog arbitrary: a)
  case Nil
  show ?case by simp
next
  case (Cons pc prog)
  obtain p c where pc: "pc = (p, c)" by (cases pc)
  let ?s = "NormalisedClause_ctor c (static_countUnnamed a)"
  let ?a = "a\<lparr>normalisations := (normalisations a)(p \<mapsto> NormalisedClause_of ?s),
              static_countUnnamed := countUnnamed ?s\<rparr>"
  have "distinct (map fst prog)" and "\<forall>q\<in>fst ` set prog. normalisations ?a q = None"
    using Cons.prems by (auto simp: pc)
  from Cons.IH [OF this] show ?case
    using Cons.prems by (simp add: pc Let_def)
qed

lemma run_dom:
  "run prog a = Inr a' \<Longrightarrow> dom (normalisations a') = dom (normalisations a) \<union> fst ` set prog"
proof (induction prog arbitrary: a)
  case Nil
  then show ?case by simp
next
  case (Cons pc prog)
  obtain q c where pc: "pc = (q, c)" by (cases pc)
  let ?s = "NormalisedClause_ctor c (static_countUnnamed a)"
  let ?a = "a\<lparr>normalisations := (normalisations a)(q \<mapsto> NormalisedClause_of ?s),
              static_countUnnamed := countUnnamed ?s\<rparr>"
  from Cons.prems have "run prog ?a = Inr a'"
    by (simp add: pc Let_def split: if_splits)
  from Cons.IH [OF this] show ?case by (auto simp: pc)
qed

lemma run_keeps:
  "run prog a = Inr a' \<Longrightarrow> p \<notin> fst ` set prog \<Longrightarrow> normalisations a' p = normalisations a p"
proof (induction prog arbitrary: a)
  case Nil
  then show ?case by simp
next
  case (Cons pc prog)
  obtain q c where pc: "pc = (q, c)" by (cases pc)
  let ?s = "NormalisedClause_ctor c (static_countUnnamed a)"
  let ?a = "a\<lparr>normalisations := (normalisations a)(q \<mapsto> NormalisedClause_of ?s),
              static_countUnnamed := countUnnamed ?s\<rparr>"
  from Cons.prems have "run prog ?a = Inr a'" and "p \<notin> fst ` set prog" and "p \<noteq> q"
    by (auto simp: pc Let_def split: if_splits)
  with Cons.IH [of ?a] show ?case by simp
qed

lemma run_asserts:
  assumes "p \<in> fst ` set prog" and "normalisations a p \<noteq> None"
  shows "run prog a = Inl ''clause already processed''"
  using assms
proof (induction prog arbitrary: a)
  case Nil
  then show ?case by simp
next
  case (Cons pc prog)
  obtain q c where pc: "pc = (q, c)" by (cases pc)
  show ?case
  proof (cases "normalisations a q \<noteq> None")
    case True
    then show ?thesis by (simp add: pc)
  next
    case False
    with Cons.prems have "p \<noteq> q" by auto
    with Cons.prems have "p \<in> fst ` set prog" by (auto simp: pc)
    moreover have "normalisations
        (a\<lparr>normalisations := (normalisations a)(q \<mapsto> NormalisedClause_of
              (NormalisedClause_ctor c (static_countUnnamed a))),
            static_countUnnamed := countUnnamed (NormalisedClause_ctor c (static_countUnnamed a))\<rparr>) p
        \<noteq> None"
      using Cons.prems \<open>p \<noteq> q\<close> by simp
    ultimately show ?thesis
      using False Cons.IH by (simp add: pc Let_def)
  qed
qed

text \<open>
  C9 (counterexample). On a translation unit whose program has no clause the loop of
  \<open>run\<close> has nothing to visit: the second invocation returns as the first did, and no
  assertion fires.
\<close>

theorem C9_empty_program_counterexample:
  "run_twice [] (ClauseNormalisationAnalysis_fresh 0) = Inr (ClauseNormalisationAnalysis_fresh 0) \<and>
   run_twice [] (ClauseNormalisationAnalysis_fresh 0) \<noteq> Inl ''clause already processed''"
  by (simp add: run_twice_def)

text \<open>
  C9 (amended). On a program whose clauses are distinct objects, none of them processed
  before, \<open>run\<close> stores exactly one \<open>NormalisedClause\<close> per clause: the keys it adds are
  the clauses of the program, and the value stored for a clause is what the constructor
  gives for it at the counter the clauses before it left. A run that meets a clause that
  is already stored aborts with the assertion; so invoking \<open>run\<close> a second time on a
  translation unit whose program has at least one clause aborts with the assertion
  \<open>clause already processed\<close>.
\<close>

theorem C9_run_once_per_clause:
  "(distinct (map fst prog) \<and> (\<forall>p\<in>fst ` set prog. normalisations a p = None) \<longrightarrow>
     (\<exists>a'. run prog a = Inr a' \<and>
        dom (normalisations a') = dom (normalisations a) \<union> fst ` set prog \<and>
        (\<forall>xs p c ys. prog = xs @ (p, c) # ys \<longrightarrow>
           (\<exists>a1. run xs a = Inr a1 \<and>
              normalisations a' p =
                Some (NormalisedClause_of (NormalisedClause_ctor c (static_countUnnamed a1))))))) \<and>
   (p \<in> fst ` set prog \<and> normalisations a p \<noteq> None \<longrightarrow>
      run prog a = Inl ''clause already processed'') \<and>
   (prog \<noteq> [] \<longrightarrow> run_twice prog a = Inl ''clause already processed'')"
proof (intro conjI impI)
  assume h: "distinct (map fst prog) \<and> (\<forall>p\<in>fst ` set prog. normalisations a p = None)"
  then have "\<exists>a'. run prog a = Inr a'"
    by (intro run_succeeds) simp_all
  then obtain a' where a': "run prog a = Inr a'" ..
  have stored: "\<exists>a1. run xs a = Inr a1 \<and>
      normalisations a' p = Some (NormalisedClause_of (NormalisedClause_ctor c (static_countUnnamed a1)))"
    if prog: "prog = xs @ (p, c) # ys" for xs p c ys
  proof -
    from a' obtain a1 where a1: "run xs a = Inr a1" and rest: "run ((p, c) # ys) a1 = Inr a'"
      by (auto simp: prog run_append split: sum.splits)
    let ?s = "NormalisedClause_ctor c (static_countUnnamed a1)"
    let ?a = "a1\<lparr>normalisations := (normalisations a1)(p \<mapsto> NormalisedClause_of ?s),
              static_countUnnamed := countUnnamed ?s\<rparr>"
    from rest have ys: "run ys ?a = Inr a'"
      by (simp add: Let_def split: if_splits)
    have "p \<notin> fst ` set ys"
      using h by (auto simp: prog)
    from run_keeps [OF ys this] have "normalisations a' p = Some (NormalisedClause_of ?s)"
      by simp
    with a1 show ?thesis by blast
  qed
  from a' run_dom [OF a'] stored
  show "\<exists>a'. run prog a = Inr a' \<and>
        dom (normalisations a') = dom (normalisations a) \<union> fst ` set prog \<and>
        (\<forall>xs p c ys. prog = xs @ (p, c) # ys \<longrightarrow>
           (\<exists>a1. run xs a = Inr a1 \<and>
              normalisations a' p =
                Some (NormalisedClause_of (NormalisedClause_ctor c (static_countUnnamed a1)))))"
    by blast
next
  assume "p \<in> fst ` set prog \<and> normalisations a p \<noteq> None"
  then show "run prog a = Inl ''clause already processed''"
    using run_asserts by blast
next
  assume ne: "prog \<noteq> []"
  show "run_twice prog a = Inl ''clause already processed''"
  proof (cases "run prog a")
    case (Inl e)
    then show ?thesis by (simp add: run_twice_def run_fails_with)
  next
    case (Inr a')
    from ne obtain q c rest where prog: "prog = (q, c) # rest" by (cases prog) auto
    have "q \<in> dom (normalisations a')"
      using run_dom [OF Inr] by (simp add: prog)
    then have "normalisations a' q \<noteq> None" by blast
    then have "run prog a' = Inl ''clause already processed''"
      by (simp add: prog)
    with Inr show ?thesis by (simp add: run_twice_def)
  qed
qed

text \<open>
  The program with the single clause \<open>R(X) :- S(X).\<close> at address 7: the first run
  stores its normalisation, the second aborts.
\<close>

theorem C9_run_once_per_clause_witness:
  "(\<exists>a'. run [(7, clause_RS)] (ClauseNormalisationAnalysis_fresh 0) = Inr a' \<and>
         dom (normalisations a') = {7}) \<and>
   run [(7, clause_RS)]
     \<lparr>normalisations = [7 \<mapsto> NormalisedClause_of (NormalisedClause_ctor clause_RS 0)],
      static_countUnnamed = 0\<rparr> = Inl ''clause already processed'' \<and>
   run_twice [(7, clause_RS)] (ClauseNormalisationAnalysis_fresh 0) = Inl ''clause already processed''"
proof -
  let ?prog = "[(7 :: nat, clause_RS)]"
  let ?a = "ClauseNormalisationAnalysis_fresh 0"
  let ?b = "\<lparr>normalisations = [7 \<mapsto> NormalisedClause_of (NormalisedClause_ctor clause_RS 0)],
      static_countUnnamed = 0\<rparr>"
  have 1: "distinct (map fst ?prog) \<and> (\<forall>p\<in>fst ` set ?prog. normalisations ?a p = None)"
    by (simp add: ClauseNormalisationAnalysis_fresh_def)
  have 2: "7 \<in> fst ` set ?prog \<and> normalisations ?b 7 \<noteq> None"
    by simp
  have 3: "?prog \<noteq> []" by simp
  note T = C9_run_once_per_clause [of ?prog ?a 7]
  from T [THEN conjunct1, THEN mp, OF 1] obtain a' where r: "run ?prog ?a = Inr a'"
    and d: "dom (normalisations a') = dom (normalisations ?a) \<union> fst ` set ?prog"
    by (elim exE conjE)
  from d have "dom (normalisations a') = {7}"
    by (simp add: ClauseNormalisationAnalysis_fresh_def)
  with r have A: "\<exists>a'. run ?prog ?a = Inr a' \<and> dom (normalisations a') = {7}"
    by (intro exI conjI)
  have B: "run ?prog ?b = Inl ''clause already processed''"
    by (rule C9_run_once_per_clause [of ?prog ?b 7, THEN conjunct2, THEN conjunct1, THEN mp, OF 2])
  have C: "run_twice ?prog ?a = Inl ''clause already processed''"
    by (rule T [THEN conjunct2, THEN conjunct2, THEN mp, OF 3])
  show ?thesis by (intro conjI A B C)
qed


subsection \<open>The counter of aggregator scopes\<close>

lemma countAggregators_append [simp]:
  "countAggregators (xs @ ys) = countAggregators xs + countAggregators ys"
  by (simp add: countAggregators_def)

lemma countAggregators_Nil [simp]: "countAggregators [] = 0"
  by (simp add: countAggregators_def)

lemma countAggregators_Cons [simp]:
  "countAggregators (a # xs) = (if isAggregator a then 1 else 0) + countAggregators xs"
  by (simp add: countAggregators_def)

lemma countAggregators_leaf [simp]:
  "\<not> isAggregator a \<Longrightarrow> countAggregators (visitedArgument a) = 0"
  by (cases a) simp_all

lemma unat_incr: "unat (c :: size_t) + 1 < 2 ^ 64 \<Longrightarrow> unat (c + 1) = unat c + 1"
  using unat_add_lem [of c 1] by simp

text \<open>
  As long as the counter does not wrap around, every visited aggregator advances it by
  one.
\<close>

lemma aggrScopeCount_advance:
  shows "unat (aggrScopeCount s1) + countAggregators (visitedArgument a) < 2 ^ 64 \<longrightarrow>
           unat (aggrScopeCount (snd (normaliseArgument a s1))) =
             unat (aggrScopeCount s1) + countAggregators (visitedArgument a)"
  and "unat (aggrScopeCount s2) + countAggregators (visitedArguments as) < 2 ^ 64 \<longrightarrow>
           unat (aggrScopeCount (snd (normaliseArguments as s2))) =
             unat (aggrScopeCount s2) + countAggregators (visitedArguments as)"
  and "unat (aggrScopeCount s3) + countAggregators (visitedAtom at) < 2 ^ 64 \<longrightarrow>
           unat (aggrScopeCount (addClauseAtom q sc at s3)) =
             unat (aggrScopeCount s3) + countAggregators (visitedAtom at)"
  and "unat (aggrScopeCount s4) + countAggregators (visitedLiteral l) < 2 ^ 64 \<longrightarrow>
           unat (aggrScopeCount (addClauseBodyLiteral sc1 l s4)) =
             unat (aggrScopeCount s4) + countAggregators (visitedLiteral l)"
  and "unat (aggrScopeCount s5) + countAggregators (visitedLiterals ls) < 2 ^ 64 \<longrightarrow>
           unat (aggrScopeCount (addClauseBodyLiterals sc2 ls s5)) =
             unat (aggrScopeCount s5) + countAggregators (visitedLiterals ls)"
proof (induction a s1 and as s2 and q sc at s3 and sc1 l s4 and sc2 ls s5 rule: normalise_induct)
  case (leaf arg s)
  then show ?case by (cases arg) (simp_all add: Let_def)
next
  case (aggregator oper target body s)
  show ?case
  proof
    assume b: "unat (aggrScopeCount s) +
        countAggregators (visitedArgument (AstAggregator oper target body)) < 2 ^ 64"
    define nt where "nt = countAggregators (case target of None \<Rightarrow> [] | Some t \<Rightarrow> visitedArgument t)"
    define nb where "nb = countAggregators (visitedLiterals body)"
    from b have b': "unat (aggrScopeCount s) + 1 + nt + nb < 2 ^ 64"
      by (simp add: nt_def nb_def)
    then have 1: "unat (aggrScopeCount (aggrOpen s)) = unat (aggrScopeCount s) + 1"
      by (simp add: aggrOpen_def unat_incr)
    have 2: "unat (aggrScopeCount (aggrSignature oper target s)) = unat (aggrScopeCount s) + 1 + nt"
    proof (cases target)
      case None
      then show ?thesis using 1 by (simp add: aggrSignature_def aggrTarget_def nt_def)
    next
      case (Some t)
      from aggregator(1) [OF Some] b' 1 show ?thesis
        by (simp add: aggrSignature_def aggrTarget_def nt_def Some)
    qed
    from aggregator(2) b' 2
    have "unat (aggrScopeCount (addClauseBodyLiterals (aggrScopeID s) body (aggrSignature oper target s))) =
        unat (aggrScopeCount s) + 1 + nt + nb"
      by (simp add: nb_def)
    then show "unat (aggrScopeCount (snd (normaliseArgument (AstAggregator oper target body) s))) =
        unat (aggrScopeCount s) + countAggregators (visitedArgument (AstAggregator oper target body))"
      by (simp add: nt_def nb_def)
  qed
qed simp_all

subsection \<open>Decimal numerals are unambiguous\<close>

lemma digit_char_inj: "a < 10 \<Longrightarrow> b < 10 \<Longrightarrow> digit_char a = digit_char b \<Longrightarrow> a = b"
proof -
  assume "a < 10" "b < 10" "digit_char a = digit_char b"
  moreover have "distinct ''0123456789''" by simp
  ultimately show "a = b"
    by (simp add: digit_char_def nth_eq_iff_index_eq)
qed

lemma show_nat_nonempty: "show_nat n \<noteq> []"
  by (subst show_nat.simps) simp

lemma show_nat_inj: "show_nat m = show_nat n \<Longrightarrow> m = n"
proof (induction m arbitrary: n rule: show_nat.induct)
  case (1 m)
  show ?case
  proof (cases "m < 10")
    case True
    have "n < 10"
    proof (rule ccontr)
      assume "\<not> n < 10"
      then have "show_nat n = show_nat (n div 10) @ [digit_char (n mod 10)]"
        by (subst show_nat.simps) simp
      moreover have "show_nat m = [digit_char m]"
        using True by (subst show_nat.simps) simp
      ultimately show False
        using "1.prems" show_nat_nonempty [of "n div 10"] by (cases "show_nat (n div 10)") simp_all
    qed
    with True "1.prems" show ?thesis
      by (subst (asm) (1 2) show_nat.simps) (simp add: digit_char_inj)
  next
    case False
    then have m: "show_nat m = show_nat (m div 10) @ [digit_char (m mod 10)]"
      by (subst show_nat.simps) simp
    have "\<not> n < 10"
    proof
      assume "n < 10"
      then have "show_nat n = [digit_char n]"
        by (subst show_nat.simps) simp
      with m "1.prems" show False
        using show_nat_nonempty [of "m div 10"] by (cases "show_nat (m div 10)") simp_all
    qed
    then have n: "show_nat n = show_nat (n div 10) @ [digit_char (n mod 10)]"
      by (subst show_nat.simps) simp
    from "1.prems" m n have "show_nat (m div 10) = show_nat (n div 10)"
      and "digit_char (m mod 10) = digit_char (n mod 10)"
      by simp_all
    then have "m div 10 = n div 10" and "m mod 10 = n mod 10"
      using "1.IH" [OF False] by (simp_all add: digit_char_inj)
    then show ?thesis
      by (metis div_mult_mod_eq)
  qed
qed

subsection \<open>The constants and the variables\<close>

lemma tokensWellFormed_frame [simp]:
  "tokensWellFormed V (s\<lparr>clauseElements := es\<rparr>) = tokensWellFormed V s"
  "tokensWellFormed V (s\<lparr>fullyNormalised := b\<rparr>) = tokensWellFormed V s"
  by (simp_all add: tokensWellFormed_def)

lemma tokensWellFormed_all:
  shows "unat (aggrScopeCount s1) + countAggregators (visitedArgument a) < 2 ^ 64 \<longrightarrow>
           variableNames (visitedArgument a) \<subseteq> V \<longrightarrow> tokensWellFormed V s1 \<longrightarrow>
           tokensWellFormed V (snd (normaliseArgument a s1))"
  and "unat (aggrScopeCount s2) + countAggregators (visitedArguments as) < 2 ^ 64 \<longrightarrow>
           variableNames (visitedArguments as) \<subseteq> V \<longrightarrow> tokensWellFormed V s2 \<longrightarrow>
           tokensWellFormed V (snd (normaliseArguments as s2))"
  and "unat (aggrScopeCount s3) + countAggregators (visitedAtom at) < 2 ^ 64 \<longrightarrow>
           variableNames (visitedAtom at) \<subseteq> V \<longrightarrow> tokensWellFormed V s3 \<longrightarrow>
           tokensWellFormed V (addClauseAtom q sc at s3)"
  and "unat (aggrScopeCount s4) + countAggregators (visitedLiteral l) < 2 ^ 64 \<longrightarrow>
           variableNames (visitedLiteral l) \<subseteq> V \<longrightarrow> tokensWellFormed V s4 \<longrightarrow>
           tokensWellFormed V (addClauseBodyLiteral sc1 l s4)"
  and "unat (aggrScopeCount s5) + countAggregators (visitedLiterals ls) < 2 ^ 64 \<longrightarrow>
           variableNames (visitedLiterals ls) \<subseteq> V \<longrightarrow> tokensWellFormed V s5 \<longrightarrow>
           tokensWellFormed V (addClauseBodyLiterals sc2 ls s5)"
proof (induction a s1 and as s2 and q sc at s3 and sc1 l s4 and sc2 ls s5 rule: normalise_induct)
  case (leaf arg s)
  then show ?case
  proof (cases arg)
    case (AstStringConstant str)
    then show ?thesis by (auto simp: Let_def tokensWellFormed_def constantToken_def)
  next
    case (AstNumericConstant n)
    then show ?thesis by (auto simp: Let_def tokensWellFormed_def constantToken_def)
  next
    case AstNilConstant
    then show ?thesis by (auto simp: tokensWellFormed_def constantToken_def)
  next
    case (AstVariable nm)
    then show ?thesis by (auto simp: tokensWellFormed_def variableToken_def)
  next
    case AstUnnamedVariable
    then show ?thesis by (auto simp: Let_def tokensWellFormed_def variableToken_def)
  qed simp_all
next
  case (aggregator oper target body s)
  show ?case
  proof (intro impI)
    assume b: "unat (aggrScopeCount s) +
        countAggregators (visitedArgument (AstAggregator oper target body)) < 2 ^ 64"
      and v: "variableNames (visitedArgument (AstAggregator oper target body)) \<subseteq> V"
      and w: "tokensWellFormed V s"
    define nt where "nt = countAggregators (case target of None \<Rightarrow> [] | Some t \<Rightarrow> visitedArgument t)"
    define nb where "nb = countAggregators (visitedLiterals body)"
    from b have b': "unat (aggrScopeCount s) + 1 + nt + nb < 2 ^ 64"
      by (simp add: nt_def nb_def)
    then have c1: "unat (aggrScopeCount (aggrOpen s)) = unat (aggrScopeCount s) + 1"
      by (simp add: aggrOpen_def unat_incr)
    have "aggrScopeID s = ''@min:scope:'' @ show_nat (unat (aggrScopeCount s) + 1)"
      using b' by (simp add: aggrScopeID_def unat_incr)
    then have "variableToken V (aggrScopeID s)"
      unfolding variableToken_def by (intro disjI2 exI [of _ "unat (aggrScopeCount s) + 1"]) simp
    with w have w1: "tokensWellFormed V (aggrOpen s)"
      by (simp add: aggrOpen_def tokensWellFormed_def)
    have 2: "unat (aggrScopeCount (aggrSignature oper target s)) = unat (aggrScopeCount s) + 1 + nt
        \<and> tokensWellFormed V (aggrSignature oper target s)"
    proof (cases target)
      case None
      then show ?thesis using c1 w1
        by (simp add: aggrSignature_def aggrTarget_def nt_def tokensWellFormed_def)
    next
      case (Some t)
      have bt: "unat (aggrScopeCount (aggrOpen s)) + countAggregators (visitedArgument t) < 2 ^ 64"
        using b' c1 by (simp add: nt_def Some)
      have vt: "variableNames (visitedArgument t) \<subseteq> V"
        using v by (auto simp: Some)
      from aggregator(1) [OF Some] bt vt w1
      have "tokensWellFormed V (snd (normaliseArgument t (aggrOpen s)))"
        by blast
      moreover from aggrScopeCount_advance(1) [of "aggrOpen s" t] bt c1
      have "unat (aggrScopeCount (snd (normaliseArgument t (aggrOpen s)))) =
          unat (aggrScopeCount s) + 1 + nt"
        by (simp add: nt_def Some)
      ultimately show ?thesis
        by (simp add: aggrSignature_def aggrTarget_def Some tokensWellFormed_def)
    qed
    have bb: "unat (aggrScopeCount (aggrSignature oper target s)) +
        countAggregators (visitedLiterals body) < 2 ^ 64"
      using 2 b' by (simp add: nb_def)
    have vb: "variableNames (visitedLiterals body) \<subseteq> V"
      using v by auto
    from aggregator(2) bb vb 2
    have "tokensWellFormed V (addClauseBodyLiterals (aggrScopeID s) body (aggrSignature oper target s))"
      by blast
    then show "tokensWellFormed V (snd (normaliseArgument (AstAggregator oper target body) s))"
      by simp
  qed
next
  case (cons_args arg args s)
  show ?case
  proof (intro impI)
    assume b: "unat (aggrScopeCount s) + countAggregators (visitedArguments (arg # args)) < 2 ^ 64"
      and v: "variableNames (visitedArguments (arg # args)) \<subseteq> V"
      and w: "tokensWellFormed V s"
    from b have ba: "unat (aggrScopeCount s) + countAggregators (visitedArgument arg) < 2 ^ 64"
      by simp
    from v have va: "variableNames (visitedArgument arg) \<subseteq> V"
      and vr: "variableNames (visitedArguments args) \<subseteq> V"
      by auto
    from cons_args(1) ba va w have w1: "tokensWellFormed V (snd (normaliseArgument arg s))"
      by blast
    from aggrScopeCount_advance(1) [of s arg] ba b
    have br: "unat (aggrScopeCount (snd (normaliseArgument arg s))) +
        countAggregators (visitedArguments args) < 2 ^ 64"
      by simp
    from cons_args(2) br vr w1
    have "tokensWellFormed V (snd (normaliseArguments args (snd (normaliseArgument arg s))))"
      by blast
    then show "tokensWellFormed V (snd (normaliseArguments (arg # args) s))"
      by simp
  qed
next
  case (constraint scopeID oper lhs rhs s)
  show ?case
  proof (intro impI)
    assume b: "unat (aggrScopeCount s) +
        countAggregators (visitedLiteral (AstBinaryConstraint oper lhs rhs)) < 2 ^ 64"
      and v: "variableNames (visitedLiteral (AstBinaryConstraint oper lhs rhs)) \<subseteq> V"
      and w: "tokensWellFormed V s"
    from b have ba: "unat (aggrScopeCount s) + countAggregators (visitedArgument lhs) < 2 ^ 64"
      by simp
    from v have va: "variableNames (visitedArgument lhs) \<subseteq> V"
      and vr: "variableNames (visitedArgument rhs) \<subseteq> V"
      by auto
    from constraint(1) ba va w have w1: "tokensWellFormed V (snd (normaliseArgument lhs s))"
      by blast
    from aggrScopeCount_advance(1) [of s lhs] ba b
    have br: "unat (aggrScopeCount (snd (normaliseArgument lhs s))) +
        countAggregators (visitedArgument rhs) < 2 ^ 64"
      by simp
    from constraint(2) br vr w1
    have "tokensWellFormed V (snd (normaliseArgument rhs (snd (normaliseArgument lhs s))))"
      by blast
    then show "tokensWellFormed V (addClauseBodyLiteral scopeID (AstBinaryConstraint oper lhs rhs) s)"
      by simp
  qed
next
  case (cons_lits scopeID lit lits s)
  show ?case
  proof (intro impI)
    assume b: "unat (aggrScopeCount s) + countAggregators (visitedLiterals (lit # lits)) < 2 ^ 64"
      and v: "variableNames (visitedLiterals (lit # lits)) \<subseteq> V"
      and w: "tokensWellFormed V s"
    from b have ba: "unat (aggrScopeCount s) + countAggregators (visitedLiteral lit) < 2 ^ 64"
      by simp
    from v have va: "variableNames (visitedLiteral lit) \<subseteq> V"
      and vr: "variableNames (visitedLiterals lits) \<subseteq> V"
      by auto
    from cons_lits(1) ba va w have w1: "tokensWellFormed V (addClauseBodyLiteral scopeID lit s)"
      by blast
    from aggrScopeCount_advance(4) [of s lit scopeID] ba b
    have br: "unat (aggrScopeCount (addClauseBodyLiteral scopeID lit s)) +
        countAggregators (visitedLiterals lits) < 2 ^ 64"
      by simp
    from cons_lits(2) br vr w1
    have "tokensWellFormed V (addClauseBodyLiterals scopeID lits (addClauseBodyLiteral scopeID lit s))"
      by blast
    then show "tokensWellFormed V (addClauseBodyLiterals scopeID (lit # lits) s)"
      by simp
  qed
qed simp_all

lemma constantToken_prefix: "constantToken c \<Longrightarrow> take 9 c = ''@min:cst:''"
  by (auto simp: constantToken_def)

lemma constant_not_variable:
  assumes "constantToken c" and "variableToken V c" and "\<forall>nm\<in>V. take 5 nm \<noteq> ''@min:''"
  shows False
proof -
  from assms(1) have c: "take 5 c = ''@min:''" and c': "c ! 5 = CHR ''c''"
    by (auto simp: constantToken_def)
  from assms(2) consider "c \<in> V" | "c ! 5 = CHR ''u''" | "c ! 5 = CHR ''s''"
    by (auto simp: variableToken_def)
  then show False
    using c c' assms(3) by cases auto
qed

text \<open>
  C10. After the \<open>NormalisedClause\<close> of a clause is constructed, every member of the
  constants is a string, numeric or nil constant token, and so starts with
  \<open>@min:cst:\<close>; every member of the variables is the raw name of a variable visited in
  the clause, a token \<open>@min:unnamed:k\<close>, or a scope token \<open>@min:scope:j\<close> with \<open>j \<ge> 1\<close>;
  and if no visited variable has a name starting with \<open>@min:\<close>, the two sets are
  disjoint. The clause is assumed to hold fewer than \<open>2 ^ 64\<close> aggregators, so that the
  64-bit scope counter does not wrap around to 0.
\<close>

theorem C10_constants_and_variables:
  assumes bound: "countAggregators (visitedClause clause) < 2 ^ 64"
  shows "(\<forall>c\<in>constants (NormalisedClause_ctor clause cu).
            take 9 c = ''@min:cst:'' \<and>
            ((\<exists>str. c = ''@min:cst:str'' @ [CHR 0x22] @ str @ [CHR 0x22]) \<or>
             (\<exists>n. c = ''@min:cst:num:'' @ show_int n) \<or> c = ''@min:cst:nil'')) \<and>
         (\<forall>v\<in>variables (NormalisedClause_ctor clause cu).
            AstVariable v \<in> set (visitedClause clause) \<or>
            (\<exists>k. v = ''@min:unnamed:'' @ show_nat k) \<or>
            (\<exists>j\<ge>1. v = ''@min:scope:'' @ show_nat j)) \<and>
         ((\<forall>nm. AstVariable nm \<in> set (visitedClause clause) \<longrightarrow> take 5 nm \<noteq> ''@min:'') \<longrightarrow>
            constants (NormalisedClause_ctor clause cu) \<inter>
            variables (NormalisedClause_ctor clause cu) = {})"
proof -
  let ?args = "getArguments (getHead clause)"
  let ?body = "getBodyLiterals clause"
  let ?V = "variableNames (visitedClause clause)"
  define s0 where "s0 = NormalisedClause_fresh cu"
  define r where "r = normaliseArguments ?args s0"
  define s2 where "s2 = (snd r)\<lparr>clauseElements := clauseElements (snd r) @
                 [\<lparr>name = [''@min:head''], params = fst r\<rparr>]\<rparr>"
  have ctor: "NormalisedClause_ctor clause cu = addClauseBodyLiterals ''@min:scope:0'' ?body s2"
    by (simp add: NormalisedClause_ctor_def s2_def r_def s0_def Let_def case_prod_unfold)
  have w0: "tokensWellFormed ?V s0" and c0: "unat (aggrScopeCount s0) = 0"
    by (simp_all add: s0_def NormalisedClause_fresh_def tokensWellFormed_def)
  from bound have b: "countAggregators (visitedArguments ?args) +
      countAggregators (visitedLiterals ?body) < 2 ^ 64"
    by (simp add: visitedClause_def)
  then have b1: "unat (aggrScopeCount s0) + countAggregators (visitedArguments ?args) < 2 ^ 64"
    using c0 by simp
  have v1: "variableNames (visitedArguments ?args) \<subseteq> ?V"
    and v2: "variableNames (visitedLiterals ?body) \<subseteq> ?V"
    by (auto simp: visitedClause_def)
  from tokensWellFormed_all(2) [of s0 ?args ?V] b1 v1 w0
  have w1: "tokensWellFormed ?V (snd r)"
    unfolding r_def by blast
  from aggrScopeCount_advance(2) [of s0 ?args] b1 c0
  have c1: "unat (aggrScopeCount (snd r)) = countAggregators (visitedArguments ?args)"
    unfolding r_def by simp
  have w2: "tokensWellFormed ?V s2" and c2: "aggrScopeCount s2 = aggrScopeCount (snd r)"
    using w1 by (simp_all add: s2_def)
  have b2: "unat (aggrScopeCount s2) + countAggregators (visitedLiterals ?body) < 2 ^ 64"
    using b c1 c2 by simp
  from tokensWellFormed_all(5) [of s2 ?body ?V "''@min:scope:0''"] b2 v2 w2
  have w: "tokensWellFormed ?V (NormalisedClause_ctor clause cu)"
    unfolding ctor by blast
  have 1: "\<forall>c\<in>constants (NormalisedClause_ctor clause cu).
            take 9 c = ''@min:cst:'' \<and>
            ((\<exists>str. c = ''@min:cst:str'' @ [CHR 0x22] @ str @ [CHR 0x22]) \<or>
             (\<exists>n. c = ''@min:cst:num:'' @ show_int n) \<or> c = ''@min:cst:nil'')"
  proof
    fix c
    assume "c \<in> constants (NormalisedClause_ctor clause cu)"
    with w have "constantToken c" by (simp add: tokensWellFormed_def)
    then show "take 9 c = ''@min:cst:'' \<and>
            ((\<exists>str. c = ''@min:cst:str'' @ [CHR 0x22] @ str @ [CHR 0x22]) \<or>
             (\<exists>n. c = ''@min:cst:num:'' @ show_int n) \<or> c = ''@min:cst:nil'')"
      using constantToken_prefix [of c] by (simp add: constantToken_def)
  qed
  have 2: "\<forall>v\<in>variables (NormalisedClause_ctor clause cu).
            AstVariable v \<in> set (visitedClause clause) \<or>
            (\<exists>k. v = ''@min:unnamed:'' @ show_nat k) \<or>
            (\<exists>j\<ge>1. v = ''@min:scope:'' @ show_nat j)"
    using w by (simp add: tokensWellFormed_def variableToken_def)
  have 3: "constants (NormalisedClause_ctor clause cu) \<inter>
            variables (NormalisedClause_ctor clause cu) = {}"
    if h: "\<forall>nm. AstVariable nm \<in> set (visitedClause clause) \<longrightarrow> take 5 nm \<noteq> ''@min:''"
  proof (rule ccontr)
    assume "constants (NormalisedClause_ctor clause cu) \<inter>
            variables (NormalisedClause_ctor clause cu) \<noteq> {}"
    then obtain c where "c \<in> constants (NormalisedClause_ctor clause cu)"
      and "c \<in> variables (NormalisedClause_ctor clause cu)"
      by blast
    with w have "constantToken c" and "variableToken ?V c"
      by (simp_all add: tokensWellFormed_def)
    moreover from h have "\<forall>nm\<in>?V. take 5 nm \<noteq> ''@min:''" by simp
    ultimately show False by (rule constant_not_variable)
  qed
  from 1 2 3 show ?thesis by (intro conjI impI)
qed

text \<open>
  \<open>R(Y) :- Y = count : { S(X) }.\<close> has one aggregator and the variables \<open>Y\<close> and \<open>X\<close>:
  its constants and its variables are disjoint, and every variable has one of the three
  forms.
\<close>

theorem C10_constants_and_variables_witness:
  "constants (NormalisedClause_ctor clause_count 0) \<inter>
     variables (NormalisedClause_ctor clause_count 0) = {} \<and>
   (\<exists>j\<ge>1. ''@min:scope:1'' = ''@min:scope:'' @ show_nat j) \<and>
   ''@min:scope:1'' \<in> variables (NormalisedClause_ctor clause_count 0)"
proof -
  have b: "countAggregators (visitedClause clause_count) < 2 ^ 64"
    by (simp add: clause_count_def visitedClause_def)
  have h: "\<forall>nm. AstVariable nm \<in> set (visitedClause clause_count) \<longrightarrow> take 5 nm \<noteq> ''@min:''"
    by (auto simp: clause_count_def visitedClause_def)
  note T = C10_constants_and_variables [OF b, of 0]
  have m: "''@min:scope:1'' \<in> variables (NormalisedClause_ctor clause_count 0)"
    by (simp add: clause_count_def eval_defs)
  have n: "AstVariable ''@min:scope:1'' \<notin> set (visitedClause clause_count)"
    by (simp add: clause_count_def visitedClause_def)
  have u: "\<not> (\<exists>k. ''@min:scope:1'' = ''@min:unnamed:'' @ show_nat k)"
    by simp
  from T [THEN conjunct2, THEN conjunct1, rule_format, OF m] n u
  have A: "\<exists>j\<ge>1. ''@min:scope:1'' = ''@min:scope:'' @ show_nat j"
    by (elim disjE) simp_all
  have B: "constants (NormalisedClause_ctor clause_count 0) \<inter>
     variables (NormalisedClause_ctor clause_count 0) = {}"
    by (rule T [THEN conjunct2, THEN conjunct2, THEN mp, OF h])
  from A B m show ?thesis by (intro conjI)
qed


subsection \<open>The scopes of aggregators\<close>

lemma scopeToken_inj: "scopeToken j = scopeToken k \<Longrightarrow> j = k"
  by (simp add: scopeToken_def show_nat_inj)

lemma scopeTokens_0 [simp]: "scopeTokens c 0 = []"
  by (simp add: scopeTokens_def)

lemma mset_scopeTokens_add:
  "mset (scopeTokens c (m + n)) = mset (scopeTokens c m) + mset (scopeTokens (c + m) n)"
proof -
  have "[c + 1 ..< c + 1 + (m + n)] = [c + 1 ..< c + 1 + m] @ [c + m + 1 ..< c + m + 1 + n]"
    using upt_add_eq_append [of "c + 1" "c + 1 + m" n] by (simp add: ac_simps)
  then show ?thesis by (simp add: scopeTokens_def)
qed

lemma mset_scopeTokens_Suc:
  "mset (scopeTokens c (Suc n)) = add_mset (scopeToken (c + 1)) (mset (scopeTokens (c + 1) n))"
  using mset_scopeTokens_add [of c 1 n] by (simp add: scopeTokens_def)

lemma distinct_scopeTokens: "distinct (scopeTokens c n)"
  by (simp add: scopeTokens_def distinct_map inj_on_def scopeToken_inj)

lemma set_scopeTokens: "set (scopeTokens c n) = scopeToken ` {c + 1 ..< c + 1 + n}"
  by (simp only: scopeTokens_def set_map set_upt)

lemma signatureScopes_append [simp]:
  "signatureScopes (xs @ ys) = signatureScopes xs @ signatureScopes ys"
  by (simp add: signatureScopes_def)

lemma signatureScopes_aggrSignature:
  "signatureScopes (clauseElements (aggrSignature oper target s)) =
     signatureScopes (clauseElements (snd (aggrTarget target s))) @ [aggrScopeID s]"
  by (cases oper) (simp_all add: aggrSignature_def signatureScopes_def isTypeSignature_def)

lemma signatureScopes_atom [simp]:
  "signatureScopes [\<lparr>name = ''@min:atom'' # qn, params = ps\<rparr>] = []"
  "signatureScopes [\<lparr>name = ''@min:neg'' # qn, params = ps\<rparr>] = []"
  "signatureScopes [\<lparr>name = [a, b], params = ps\<rparr>] = []"
  by (simp_all add: signatureScopes_def isTypeSignature_def)

lemma variables_grow:
  shows "variables s1 \<subseteq> variables (snd (normaliseArgument a s1))"
  and "variables s2 \<subseteq> variables (snd (normaliseArguments as s2))"
  and "variables s3 \<subseteq> variables (addClauseAtom q sc at s3)"
  and "variables s4 \<subseteq> variables (addClauseBodyLiteral sc1 l s4)"
  and "variables s5 \<subseteq> variables (addClauseBodyLiterals sc2 ls s5)"
proof (induction a s1 and as s2 and q sc at s3 and sc1 l s4 and sc2 ls s5 rule: normalise_induct)
  case (leaf arg s)
  then show ?case by (cases arg) (auto simp: Let_def)
next
  case (aggregator oper target body s)
  then show ?case by (cases target) (auto simp: aggr_defs)
qed auto

text \<open>
  As long as the counter does not wrap around, the aggregators visited from a state with
  counter \<open>c\<close> emit type signatures whose scopes are exactly the tokens numbered
  \<open>c + 1, ..., c + n\<close>, each once.
\<close>

lemma signatureScopes_all:
  shows "unat (aggrScopeCount s1) + countAggregators (visitedArgument a) < 2 ^ 64 \<longrightarrow>
           mset (signatureScopes (clauseElements (snd (normaliseArgument a s1)))) =
             mset (signatureScopes (clauseElements s1)) +
             mset (scopeTokens (unat (aggrScopeCount s1)) (countAggregators (visitedArgument a)))"
  and "unat (aggrScopeCount s2) + countAggregators (visitedArguments as) < 2 ^ 64 \<longrightarrow>
           mset (signatureScopes (clauseElements (snd (normaliseArguments as s2)))) =
             mset (signatureScopes (clauseElements s2)) +
             mset (scopeTokens (unat (aggrScopeCount s2)) (countAggregators (visitedArguments as)))"
  and "unat (aggrScopeCount s3) + countAggregators (visitedAtom at) < 2 ^ 64 \<longrightarrow>
           q = ''@min:atom'' \<or> q = ''@min:neg'' \<longrightarrow>
           mset (signatureScopes (clauseElements (addClauseAtom q sc at s3))) =
             mset (signatureScopes (clauseElements s3)) +
             mset (scopeTokens (unat (aggrScopeCount s3)) (countAggregators (visitedAtom at)))"
  and "unat (aggrScopeCount s4) + countAggregators (visitedLiteral l) < 2 ^ 64 \<longrightarrow>
           mset (signatureScopes (clauseElements (addClauseBodyLiteral sc1 l s4))) =
             mset (signatureScopes (clauseElements s4)) +
             mset (scopeTokens (unat (aggrScopeCount s4)) (countAggregators (visitedLiteral l)))"
  and "unat (aggrScopeCount s5) + countAggregators (visitedLiterals ls) < 2 ^ 64 \<longrightarrow>
           mset (signatureScopes (clauseElements (addClauseBodyLiterals sc2 ls s5))) =
             mset (signatureScopes (clauseElements s5)) +
             mset (scopeTokens (unat (aggrScopeCount s5)) (countAggregators (visitedLiterals ls)))"
proof (induction a s1 and as s2 and q sc at s3 and sc1 l s4 and sc2 ls s5 rule: normalise_induct)
  case (leaf arg s)
  then show ?case by (cases arg) (simp_all add: Let_def)
next
  case (aggregator oper target body s)
  show ?case
  proof (intro impI)
    assume b: "unat (aggrScopeCount s) +
        countAggregators (visitedArgument (AstAggregator oper target body)) < 2 ^ 64"
    define c where "c = unat (aggrScopeCount s)"
    define nt where "nt = countAggregators (case target of None \<Rightarrow> [] | Some t \<Rightarrow> visitedArgument t)"
    define nb where "nb = countAggregators (visitedLiterals body)"
    define S where "S t = mset (signatureScopes (clauseElements t))" for t :: state
    from b have b': "c + 1 + nt + nb < 2 ^ 64"
      by (simp add: nt_def nb_def c_def)
    then have c1: "unat (aggrScopeCount (aggrOpen s)) = c + 1"
      by (simp add: aggrOpen_def unat_incr c_def)
    have sid: "aggrScopeID s = scopeToken (c + 1)"
      using b' by (simp add: aggrScopeID_def scopeToken_def unat_incr c_def)
    have 1: "unat (aggrScopeCount (snd (aggrTarget target s))) = c + 1 + nt \<and>
        S (snd (aggrTarget target s)) = S s + mset (scopeTokens (c + 1) nt)"
    proof (cases target)
      case None
      then show ?thesis using c1 by (simp add: aggrTarget_def nt_def S_def aggrOpen_def)
    next
      case (Some t)
      have bt: "unat (aggrScopeCount (aggrOpen s)) + countAggregators (visitedArgument t) < 2 ^ 64"
        using b' c1 by (simp add: nt_def Some)
      from aggregator(1) [OF Some] bt c1
      have "S (snd (normaliseArgument t (aggrOpen s))) = S (aggrOpen s) + mset (scopeTokens (c + 1) nt)"
        by (simp add: S_def nt_def Some)
      moreover have "S (aggrOpen s) = S s"
        by (simp add: S_def aggrOpen_def)
      moreover from aggrScopeCount_advance(1) [of "aggrOpen s" t] bt c1
      have "unat (aggrScopeCount (snd (normaliseArgument t (aggrOpen s)))) = c + 1 + nt"
        by (simp add: nt_def Some)
      ultimately show ?thesis
        by (simp add: aggrTarget_def Some)
    qed
    have 2: "unat (aggrScopeCount (aggrSignature oper target s)) = c + 1 + nt"
      and 3: "S (aggrSignature oper target s) =
          S s + mset (scopeTokens (c + 1) nt) + {#scopeToken (c + 1)#}"
      using 1 by (simp_all add: signatureScopes_aggrSignature S_def sid) (simp add: aggrSignature_def)
    have bb: "unat (aggrScopeCount (aggrSignature oper target s)) +
        countAggregators (visitedLiterals body) < 2 ^ 64"
      using 2 b' by (simp add: nb_def)
    from aggregator(2) bb 2
    have "S (addClauseBodyLiterals (aggrScopeID s) body (aggrSignature oper target s)) =
        S (aggrSignature oper target s) + mset (scopeTokens (c + 1 + nt) nb)"
      by (simp add: S_def nb_def)
    also have "\<dots> = S s + mset (scopeTokens c (Suc (nt + nb)))"
      by (simp add: 3 mset_scopeTokens_Suc mset_scopeTokens_add)
    finally show "mset (signatureScopes (clauseElements
          (snd (normaliseArgument (AstAggregator oper target body) s)))) =
        mset (signatureScopes (clauseElements s)) +
        mset (scopeTokens (unat (aggrScopeCount s))
               (countAggregators (visitedArgument (AstAggregator oper target body))))"
      by (simp add: S_def c_def nt_def nb_def)
  qed
next
  case (cons_args arg args s)
  show ?case
  proof (intro impI)
    assume b: "unat (aggrScopeCount s) + countAggregators (visitedArguments (arg # args)) < 2 ^ 64"
    then have ba: "unat (aggrScopeCount s) + countAggregators (visitedArgument arg) < 2 ^ 64"
      by simp
    from aggrScopeCount_advance(1) [of s arg] ba
    have c: "unat (aggrScopeCount (snd (normaliseArgument arg s))) =
        unat (aggrScopeCount s) + countAggregators (visitedArgument arg)"
      by simp
    with b have br: "unat (aggrScopeCount (snd (normaliseArgument arg s))) +
        countAggregators (visitedArguments args) < 2 ^ 64"
      by simp
    from cons_args(1) ba cons_args(2) br c
    show "mset (signatureScopes (clauseElements (snd (normaliseArguments (arg # args) s)))) =
        mset (signatureScopes (clauseElements s)) +
        mset (scopeTokens (unat (aggrScopeCount s)) (countAggregators (visitedArguments (arg # args))))"
      by (simp add: mset_scopeTokens_add)
  qed
next
  case (constraint scopeID oper lhs rhs s)
  show ?case
  proof (intro impI)
    assume b: "unat (aggrScopeCount s) +
        countAggregators (visitedLiteral (AstBinaryConstraint oper lhs rhs)) < 2 ^ 64"
    then have ba: "unat (aggrScopeCount s) + countAggregators (visitedArgument lhs) < 2 ^ 64"
      by simp
    from aggrScopeCount_advance(1) [of s lhs] ba
    have c: "unat (aggrScopeCount (snd (normaliseArgument lhs s))) =
        unat (aggrScopeCount s) + countAggregators (visitedArgument lhs)"
      by simp
    with b have br: "unat (aggrScopeCount (snd (normaliseArgument lhs s))) +
        countAggregators (visitedArgument rhs) < 2 ^ 64"
      by simp
    from constraint(1) ba constraint(2) br c
    show "mset (signatureScopes (clauseElements
          (addClauseBodyLiteral scopeID (AstBinaryConstraint oper lhs rhs) s))) =
        mset (signatureScopes (clauseElements s)) +
        mset (scopeTokens (unat (aggrScopeCount s))
               (countAggregators (visitedLiteral (AstBinaryConstraint oper lhs rhs))))"
      by (simp add: mset_scopeTokens_add)
  qed
next
  case (cons_lits scopeID lit lits s)
  show ?case
  proof (intro impI)
    assume b: "unat (aggrScopeCount s) + countAggregators (visitedLiterals (lit # lits)) < 2 ^ 64"
    then have ba: "unat (aggrScopeCount s) + countAggregators (visitedLiteral lit) < 2 ^ 64"
      by simp
    from aggrScopeCount_advance(4) [of s lit scopeID] ba
    have c: "unat (aggrScopeCount (addClauseBodyLiteral scopeID lit s)) =
        unat (aggrScopeCount s) + countAggregators (visitedLiteral lit)"
      by simp
    with b have br: "unat (aggrScopeCount (addClauseBodyLiteral scopeID lit s)) +
        countAggregators (visitedLiterals lits) < 2 ^ 64"
      by simp
    from cons_lits(1) ba cons_lits(2) br c
    show "mset (signatureScopes (clauseElements (addClauseBodyLiterals scopeID (lit # lits) s))) =
        mset (signatureScopes (clauseElements s)) +
        mset (scopeTokens (unat (aggrScopeCount s)) (countAggregators (visitedLiterals (lit # lits))))"
      by (simp add: mset_scopeTokens_add)
  qed
next
  case (atom qualifier scopeID qn args s)
  then show ?case by auto
qed simp_all

text \<open>
  C2. On an aggregator, \<open>normaliseArgument\<close> increments the aggregator counter of the
  clause and builds the scope token \<open>@min:scope:\<close> followed by the new count, inserts the
  token into the variables, normalises the target when there is one, emits one element
  named \<open>@min:aggrtype:\<close> followed by the operator, whose parameters are the new scope id
  and then the token of the target if present, normalises the body literals under the
  new scope id, and returns the new scope id. The token is among the variables of the
  result and the type signature among the elements the call has appended. As long as the
  64-bit counter does not wrap around, the new scope id is numbered one more than the
  count before the call, and the aggregators nested in the target and the body take the
  scope ids numbered after it, each once: all of them differ from each other, from the
  new scope id, and from every scope id numbered up to the count before the call, the
  scope ids of the enclosing scopes among them.
\<close>

theorem C2_aggregator_scope:
  "(let scopeID = ''@min:scope:'' @ show_nat (unat (aggrScopeCount s + 1));
        s1 = s\<lparr>aggrScopeCount := aggrScopeCount s + 1,
               variables := insert scopeID (variables s)\<rparr>;
        targetTokens = (case target of None \<Rightarrow> [] | Some t \<Rightarrow> [fst (normaliseArgument t s1)]);
        s2 = (case target of None \<Rightarrow> s1 | Some t \<Rightarrow> snd (normaliseArgument t s1));
        signature = \<lparr>name = [''@min:aggrtype:'' @ aggregateOpName oper],
                     params = scopeID # targetTokens\<rparr>;
        s3 = s2\<lparr>clauseElements := clauseElements s2 @ [signature]\<rparr>;
        s' = snd (normaliseArgument (AstAggregator oper target body) s);
        new = drop (length (clauseElements s)) (clauseElements s');
        c = unat (aggrScopeCount s);
        nested = countAggregators
                   ((case target of None \<Rightarrow> [] | Some t \<Rightarrow> visitedArgument t) @ visitedLiterals body)
    in normaliseArgument (AstAggregator oper target body) s =
         (scopeID, addClauseBodyLiterals scopeID body s3) \<and>
       scopeID \<in> variables s' \<and>
       clauseElements s' = clauseElements s @ new \<and>
       signature \<in> set new \<and>
       (c + 1 + nested < 2 ^ 64 \<longrightarrow>
          scopeID = scopeToken (c + 1) \<and>
          mset (signatureScopes new) = add_mset scopeID (mset (scopeTokens (c + 1) nested)) \<and>
          distinct (signatureScopes new) \<and>
          scopeID \<notin> set (scopeTokens (c + 1) nested) \<and>
          (\<forall>k\<le>c. scopeToken k \<notin> set (signatureScopes new))))"
proof -
  define scopeID where "scopeID = ''@min:scope:'' @ show_nat (unat (aggrScopeCount s + 1))"
  define s1 where "s1 = s\<lparr>aggrScopeCount := aggrScopeCount s + 1,
               variables := insert scopeID (variables s)\<rparr>"
  define targetTokens where
    "targetTokens = (case target of None \<Rightarrow> [] | Some t \<Rightarrow> [fst (normaliseArgument t s1)])"
  define s2 where "s2 = (case target of None \<Rightarrow> s1 | Some t \<Rightarrow> snd (normaliseArgument t s1))"
  define signature where "signature = \<lparr>name = [''@min:aggrtype:'' @ aggregateOpName oper],
                     params = scopeID # targetTokens\<rparr>"
  define s3 where "s3 = s2\<lparr>clauseElements := clauseElements s2 @ [signature]\<rparr>"
  define s' where "s' = snd (normaliseArgument (AstAggregator oper target body) s)"
  define new where "new = drop (length (clauseElements s)) (clauseElements s')"
  define c where "c = unat (aggrScopeCount s)"
  define nested where "nested = countAggregators
       ((case target of None \<Rightarrow> [] | Some t \<Rightarrow> visitedArgument t) @ visitedLiterals body)"
  have sid: "aggrScopeID s = scopeID"
    by (simp add: aggrScopeID_def scopeID_def)
  have op: "aggrOpen s = s1"
    by (simp add: aggrOpen_def s1_def sid)
  have tg: "aggrTarget target s = (targetTokens, s2)"
    by (cases target) (simp_all add: aggrTarget_def targetTokens_def s2_def op)
  have sg: "aggrSignature oper target s = s3"
    by (simp add: aggrSignature_def tg s3_def signature_def sid)
  have eq: "normaliseArgument (AstAggregator oper target body) s =
         (scopeID, addClauseBodyLiterals scopeID body s3)"
    by (simp add: sid sg)
  have s': "s' = addClauseBodyLiterals scopeID body s3"
    unfolding s'_def eq by simp
  have "variables s1 \<subseteq> variables s2"
    using variables_grow(1) [of s1] by (cases target) (simp_all add: s2_def)
  moreover have "variables s3 \<subseteq> variables s'"
    unfolding s' by (rule variables_grow(5))
  ultimately have var: "scopeID \<in> variables s'"
    by (auto simp: s1_def s3_def)
  obtain n1 where n1: "clauseElements s2 = clauseElements s @ n1"
  proof (cases target)
    case None
    with that [of "[]"] show ?thesis by (simp add: s2_def s1_def)
  next
    case (Some t)
    from elements_grow_all(1) [of t s1] obtain n where
      "clauseElements (snd (normaliseArgument t s1)) = clauseElements s1 @ n" ..
    with that [of n] show ?thesis by (simp add: s2_def s1_def Some)
  qed
  from elements_grow_all(5) [of scopeID body s3] obtain n3 where
    "clauseElements s' = clauseElements s3 @ n3"
    unfolding s' by blast
  then have els: "clauseElements s' = clauseElements s @ n1 @ signature # n3"
    by (simp add: s3_def n1)
  then have new: "new = n1 @ signature # n3"
    by (simp add: new_def)
  have grow: "clauseElements s' = clauseElements s @ new"
    by (simp add: els new)
  have mem: "signature \<in> set new"
    by (simp add: new)
  have fresh: "scopeID = scopeToken (c + 1) \<and>
          mset (signatureScopes new) = add_mset scopeID (mset (scopeTokens (c + 1) nested)) \<and>
          distinct (signatureScopes new) \<and>
          scopeID \<notin> set (scopeTokens (c + 1) nested) \<and>
          (\<forall>k\<le>c. scopeToken k \<notin> set (signatureScopes new))"
    if b: "c + 1 + nested < 2 ^ 64"
  proof -
    have n: "countAggregators (visitedArgument (AstAggregator oper target body)) = Suc nested"
      by (simp add: nested_def)
    have 1: "scopeID = scopeToken (c + 1)"
      using b by (simp add: scopeID_def scopeToken_def c_def unat_incr)
    from signatureScopes_all(1) [of s "AstAggregator oper target body"] b
    have "mset (signatureScopes (clauseElements s')) =
        mset (signatureScopes (clauseElements s)) + mset (scopeTokens c (Suc nested))"
      unfolding n s'_def c_def by simp
    then have 2: "mset (signatureScopes new) = mset (scopeTokens c (Suc nested))"
      by (simp add: grow)
    then have 3: "mset (signatureScopes new) = add_mset scopeID (mset (scopeTokens (c + 1) nested))"
      by (simp add: mset_scopeTokens_Suc 1)
    from 2 have 4: "distinct (signatureScopes new)"
      using distinct_scopeTokens [of c "Suc nested"] by (metis mset_eq_imp_distinct_iff)
    have 5: "scopeID \<notin> set (scopeTokens (c + 1) nested)"
      unfolding 1 set_scopeTokens using scopeToken_inj by fastforce
    from 2 have "set (signatureScopes new) = set (scopeTokens c (Suc nested))"
      by (rule mset_eq_setD)
    then have 6: "\<forall>k\<le>c. scopeToken k \<notin> set (signatureScopes new)"
      unfolding set_scopeTokens using scopeToken_inj by fastforce
    from 1 3 4 5 6 show ?thesis by (intro conjI)
  qed
  from fresh have fresh': "c + 1 + nested < 2 ^ 64 \<longrightarrow>
          scopeID = scopeToken (c + 1) \<and>
          mset (signatureScopes new) = add_mset scopeID (mset (scopeTokens (c + 1) nested)) \<and>
          distinct (signatureScopes new) \<and>
          scopeID \<notin> set (scopeTokens (c + 1) nested) \<and>
          (\<forall>k\<le>c. scopeToken k \<notin> set (signatureScopes new))"
    by (rule impI)
  show ?thesis
    unfolding Let_def scopeID_def [symmetric] s1_def [symmetric] targetTokens_def [symmetric]
      s2_def [symmetric] signature_def [symmetric] s3_def [symmetric] s'_def [symmetric]
      new_def [symmetric] c_def [symmetric] nested_def [symmetric]
    by (rule conjI [OF eq conjI [OF var conjI [OF grow conjI [OF mem fresh']]]])
qed

text \<open>
  The aggregator \<open>sum X : { S(X), X < count : { T(X) } }\<close> normalised in a fresh
  state: it takes scope 1 and the nested aggregator scope 2.
\<close>

theorem C2_aggregator_scope_witness:
  "fst (normaliseArgument
         (AstAggregator AggrSum (Some (AstVariable ''X''))
            [LitAtom (AstAtom [''S''] [AstVariable ''X'']),
             AstBinaryConstraint BC_LT (AstVariable ''X'')
               (AstAggregator AggrCount None [LitAtom (AstAtom [''T''] [AstVariable ''X''])])])
         (NormalisedClause_fresh 0)) = scopeToken 1 \<and>
   mset (signatureScopes (drop 0 (clauseElements (snd (normaliseArgument
         (AstAggregator AggrSum (Some (AstVariable ''X''))
            [LitAtom (AstAtom [''S''] [AstVariable ''X'']),
             AstBinaryConstraint BC_LT (AstVariable ''X'')
               (AstAggregator AggrCount None [LitAtom (AstAtom [''T''] [AstVariable ''X''])])])
         (NormalisedClause_fresh 0)))))) =
     add_mset (scopeToken 1) (mset (scopeTokens 1 1)) \<and>
   scopeTokens 1 1 = [''@min:scope:2'']"
proof -
  let ?body = "[LitAtom (AstAtom [''S''] [AstVariable ''X'']),
             AstBinaryConstraint BC_LT (AstVariable ''X'')
               (AstAggregator AggrCount None [LitAtom (AstAtom [''T''] [AstVariable ''X''])])]"
  let ?s = "NormalisedClause_fresh 0"
  have nested: "countAggregators ((case Some (AstVariable ''X'') of None \<Rightarrow> []
        | Some t \<Rightarrow> visitedArgument t) @ visitedLiterals ?body) = 1"
    by simp
  have c: "unat (aggrScopeCount ?s) = 0" and l: "length (clauseElements ?s) = 0"
    by (simp_all add: NormalisedClause_fresh_def)
  have b: "unat (aggrScopeCount ?s) + 1 + countAggregators ((case Some (AstVariable ''X'') of None \<Rightarrow> []
        | Some t \<Rightarrow> visitedArgument t) @ visitedLiterals ?body) < (2::nat) ^ 64"
    unfolding nested c by simp
  note T = C2_aggregator_scope [of ?s "Some (AstVariable ''X'')" AggrSum ?body, unfolded Let_def]
  from T [THEN conjunct1]
  have 0: "fst (normaliseArgument (AstAggregator AggrSum (Some (AstVariable ''X'')) ?body) ?s) =
      ''@min:scope:'' @ show_nat (unat (aggrScopeCount ?s + 1))"
    by simp
  from T [THEN conjunct2, THEN conjunct2, THEN conjunct2, THEN conjunct2, THEN mp, OF b]
  have 1: "''@min:scope:'' @ show_nat (unat (aggrScopeCount ?s + 1)) = scopeToken 1"
    and 2: "mset (signatureScopes (drop 0 (clauseElements (snd (normaliseArgument
         (AstAggregator AggrSum (Some (AstVariable ''X'')) ?body) ?s))))) =
     add_mset (scopeToken 1) (mset (scopeTokens 1 1))"
    unfolding nested c l by simp_all
  have 3: "scopeTokens 1 1 = [''@min:scope:2'']"
    by (simp add: scopeTokens_def scopeToken_def show_nat.simps digit_char_def)
  from 0 1 2 3 show ?thesis by (simp only: simp_thms)
qed

end
